theory Spec2Isabelle
  imports Complex_Main "HOL-Library.Sublist"
begin

section \<open>Python values and strings\<close>

text \<open>
  The guardrail code is Python. A \<open>str\<close> is modelled as a \<^typ>\<open>string\<close> whose
  characters are the code points below 256 (Latin-1); case folding, whitespace, digits
  and word characters are what Python's \<open>str\<close> methods and the \<open>re\<close> module make
  of these code points. Configuration values and values handed over by the external
  Guardrails AI library are \<open>None\<close>, a \<open>bool\<close> or a \<open>str\<close>.
\<close>

datatype pyval = PNone | PBool bool | PStr string

type_synonym pydict = "(string \<times> pyval) list"

text \<open>\<open>d.get(k, dflt)\<close> on a dict kept as an association list.\<close>

definition dict_get :: "pydict \<Rightarrow> string \<Rightarrow> pyval \<Rightarrow> pyval" where
  "dict_get d k dflt = (case map_of d k of Some v \<Rightarrow> v | None \<Rightarrow> dflt)"

text \<open>Python's truth value of \<open>None\<close>, a \<open>bool\<close> and a \<open>str\<close>.\<close>

fun truthy :: "pyval \<Rightarrow> bool" where
  "truthy PNone = False"
| "truthy (PBool b) = b"
| "truthy (PStr s) = (s \<noteq> [])"

definition upper_letters :: string where
  "upper_letters = ''ABCDEFGHIJKLMNOPQRSTUVWXYZ''"

definition lower_letters :: string where
  "lower_letters = ''abcdefghijklmnopqrstuvwxyz''"

definition digit_chars :: string where
  "digit_chars = ''0123456789''"

text \<open>The capital letters beyond ASCII, 0xC0 to 0xDE without the sign 0xD7, and their
  small forms, 0x20 further on.\<close>

definition latin1_upper :: string where
  "latin1_upper =
     [CHR 0xC0, CHR 0xC1, CHR 0xC2, CHR 0xC3, CHR 0xC4, CHR 0xC5, CHR 0xC6,
      CHR 0xC7, CHR 0xC8, CHR 0xC9, CHR 0xCA, CHR 0xCB, CHR 0xCC, CHR 0xCD,
      CHR 0xCE, CHR 0xCF, CHR 0xD0, CHR 0xD1, CHR 0xD2, CHR 0xD3, CHR 0xD4,
      CHR 0xD5, CHR 0xD6, CHR 0xD8, CHR 0xD9, CHR 0xDA, CHR 0xDB, CHR 0xDC,
      CHR 0xDD, CHR 0xDE]"

definition latin1_lower :: string where
  "latin1_lower =
     [CHR 0xE0, CHR 0xE1, CHR 0xE2, CHR 0xE3, CHR 0xE4, CHR 0xE5, CHR 0xE6,
      CHR 0xE7, CHR 0xE8, CHR 0xE9, CHR 0xEA, CHR 0xEB, CHR 0xEC, CHR 0xED,
      CHR 0xEE, CHR 0xEF, CHR 0xF0, CHR 0xF1, CHR 0xF2, CHR 0xF3, CHR 0xF4,
      CHR 0xF5, CHR 0xF6, CHR 0xF8, CHR 0xF9, CHR 0xFA, CHR 0xFB, CHR 0xFC,
      CHR 0xFD, CHR 0xFE]"

definition lower_char :: "char \<Rightarrow> char" where
  "lower_char c =
     (case map_of (zip (upper_letters @ latin1_upper) (lower_letters @ latin1_lower)) c of
        Some d \<Rightarrow> d
      | None \<Rightarrow> c)"

text \<open>\<open>s.lower()\<close>\<close>

definition lower :: "string \<Rightarrow> string" where
  "lower s = map lower_char s"

text \<open>
  Whitespace as \<open>str.split()\<close> and the pattern \<open>\s\<close> see it: tab, line feed,
  vertical tab, form feed, carriage return, the four separators 0x1C to 0x1F, space,
  next line (0x85) and the no-break space (0xA0).
\<close>

definition newline :: char where
  "newline = CHR 0x0A"

definition is_space :: "char \<Rightarrow> bool" where
  "is_space c \<longleftrightarrow> c \<in> set [CHR 0x09, CHR 0x0A, CHR 0x0B, CHR 0x0C, CHR 0x0D,
                             CHR 0x1C, CHR 0x1D, CHR 0x1E, CHR 0x1F, CHR 0x20,
                             CHR 0x85, CHR 0xA0]"

text \<open>The pattern class \<open>\d\<close>: below 256 it has the ten ASCII digits only.\<close>

definition is_digit :: "char \<Rightarrow> bool" where
  "is_digit c \<longleftrightarrow> c \<in> set digit_chars"

text \<open>\<open>[A-Za-z]\<close>, as the patterns spell it.\<close>

definition is_alpha :: "char \<Rightarrow> bool" where
  "is_alpha c \<longleftrightarrow> c \<in> set upper_letters \<or> c \<in> set lower_letters"

text \<open>The letters and numbers beyond ASCII that \<open>\w\<close> and \<open>\b\<close> count as word
  characters: 0xAA, 0xB2, 0xB3, 0xB5, 0xB9, 0xBA, 0xBC to 0xBE, and 0xC0 to 0xFF without
  the signs 0xD7 and 0xF7.\<close>

definition latin1_word_chars :: string where
  "latin1_word_chars =
     [CHR 0xAA, CHR 0xB2, CHR 0xB3, CHR 0xB5, CHR 0xB9, CHR 0xBA, CHR 0xBC,
      CHR 0xBD, CHR 0xBE, CHR 0xC0, CHR 0xC1, CHR 0xC2, CHR 0xC3, CHR 0xC4,
      CHR 0xC5, CHR 0xC6, CHR 0xC7, CHR 0xC8, CHR 0xC9, CHR 0xCA, CHR 0xCB,
      CHR 0xCC, CHR 0xCD, CHR 0xCE, CHR 0xCF, CHR 0xD0, CHR 0xD1, CHR 0xD2,
      CHR 0xD3, CHR 0xD4, CHR 0xD5, CHR 0xD6, CHR 0xD8, CHR 0xD9, CHR 0xDA,
      CHR 0xDB, CHR 0xDC, CHR 0xDD, CHR 0xDE, CHR 0xDF, CHR 0xE0, CHR 0xE1,
      CHR 0xE2, CHR 0xE3, CHR 0xE4, CHR 0xE5, CHR 0xE6, CHR 0xE7, CHR 0xE8,
      CHR 0xE9, CHR 0xEA, CHR 0xEB, CHR 0xEC, CHR 0xED, CHR 0xEE, CHR 0xEF,
      CHR 0xF0, CHR 0xF1, CHR 0xF2, CHR 0xF3, CHR 0xF4, CHR 0xF5, CHR 0xF6,
      CHR 0xF8, CHR 0xF9, CHR 0xFA, CHR 0xFB, CHR 0xFC, CHR 0xFD, CHR 0xFE,
      CHR 0xFF]"

text \<open>The pattern class \<open>\w\<close>.\<close>

definition is_word :: "char \<Rightarrow> bool" where
  "is_word c \<longleftrightarrow> is_alpha c \<or> is_digit c \<or> c = CHR ''_'' \<or> c \<in> set latin1_word_chars"

text \<open>\<open>len(s.split())\<close>: the number of maximal runs of non-whitespace characters.\<close>

fun count_tokens :: "bool \<Rightarrow> string \<Rightarrow> nat" where
  "count_tokens inside [] = 0"
| "count_tokens inside (c # cs) =
     (if is_space c then count_tokens False cs
      else if inside then count_tokens True cs
      else Suc (count_tokens True cs))"

text \<open>
  \<open>s.replace(old, new)\<close>: every occurrence of \<open>old\<close>, found from the left without
  overlap, is replaced; an empty \<open>old\<close> matches before every character and at the end.
\<close>

fun str_replace :: "string \<Rightarrow> string \<Rightarrow> string \<Rightarrow> string" where
  "str_replace s [] new = new @ concat (map (\<lambda>c. c # new) s)"
| "str_replace [] (x # old) new = []"
| "str_replace (c # cs) (x # old) new =
     (if prefix (x # old) (c # cs)
      then new @ str_replace (drop (length old) cs) (x # old) new
      else c # str_replace cs (x # old) new)"

text \<open>\<open>sep.join(parts)\<close>\<close>

fun join :: "string \<Rightarrow> string list \<Rightarrow> string" where
  "join sep [] = []"
| "join sep [p] = p"
| "join sep (p # q # ps) = p @ sep @ join sep (q # ps)"

section \<open>Violations\<close>

text \<open>
  A violation is a dict; the code reads it with \<open>get\<close> and a default, so every key may
  be missing.
\<close>

record violation =
  validator :: "string option"
  category :: "string option"
  reason :: "string option"
  severity :: "string option"
  pii_type :: "string option"
  matches :: "string list option"
  pattern :: "string option"

definition mk_violation :: "string \<Rightarrow> string \<Rightarrow> string \<Rightarrow> string \<Rightarrow> violation" where
  "mk_violation v c r s =
     \<lparr>validator = Some v, category = Some c, reason = Some r, severity = Some s,
      pii_type = None, matches = None, pattern = None\<rparr>"

section \<open>OutputGuardrail._sanitize\<close>

definition redaction_marker :: string where
  "redaction_marker = ''[REDACTED]''"

text \<open>The matches the loop body redacts for one violation: none unless the validator is
  \<open>detect_pii\<close> or \<open>pii\<close>.\<close>

definition pii_matches :: "violation \<Rightarrow> string list" where
  "pii_matches v =
     (let validator_name = (case validator v of Some n \<Rightarrow> n | None \<Rightarrow> [])
      in if validator_name \<in> set [''detect_pii'', ''pii'']
         then (case matches v of Some ms \<Rightarrow> ms | None \<Rightarrow> [])
         else [])"

definition redact :: "string \<Rightarrow> string list \<Rightarrow> string" where
  "redact s ms = foldl (\<lambda>sanitized m. str_replace sanitized m redaction_marker) s ms"

definition sanitize :: "string \<Rightarrow> violation list \<Rightarrow> string" where
  "sanitize text violations = foldl (\<lambda>sanitized v. redact sanitized (pii_matches v)) text violations"

text \<open>
  A match is safe for the marker when it is not empty, has no square bracket and does
  not occur inside the word \<open>REDACTED\<close>: replacing by the marker can then never
  produce a new occurrence of it.
\<close>

definition marker_safe :: "string \<Rightarrow> bool" where
  "marker_safe m \<longleftrightarrow>
     m \<noteq> [] \<and> CHR ''['' \<notin> set m \<and> CHR '']'' \<notin> set m \<and> \<not> sublist m ''REDACTED''"

section \<open>Regular expressions of the guardrails\<close>

text \<open>
  The patterns the guardrails hand to \<open>re.findall\<close> are built from single-character
  classes, sequence, ordered alternative, greedy repetition of a class with a minimum
  count, the lazy \<open>.*?\<close> (under \<open>re.DOTALL\<close>), the word boundary \<open>\b\<close>, a
  lookahead, the end anchor \<open>\Z\<close> and one capturing group. The matcher is a
  backtracking one with continuations, trying alternatives in the order Python does.
\<close>

datatype rx =
    Cls "char \<Rightarrow> bool"
  | Eps
  | Seq rx rx
  | Alt rx rx
  | Many "char \<Rightarrow> bool" nat
  | Lazy_any
  | WordB
  | Ahead rx
  | At_end
  | Group rx

record mstate =
  prev :: "char option"
  rest :: string
  cap :: "string option"

definition advance :: "nat \<Rightarrow> mstate \<Rightarrow> mstate" where
  "advance j st =
     st\<lparr>prev := (if j = 0 then prev st else Some (rest st ! (j - 1))),
        rest := drop j (rest st)\<rparr>"

text \<open>Greedy: the longest repetition first, down to the minimum.\<close>

fun try_down :: "nat \<Rightarrow> nat \<Rightarrow> (nat \<Rightarrow> 'a option) \<Rightarrow> 'a option" where
  "try_down 0 lo k = (if lo = 0 then k 0 else None)"
| "try_down (Suc j) lo k =
     (if Suc j < lo then None
      else (case k (Suc j) of Some r \<Rightarrow> Some r | None \<Rightarrow> try_down j lo k))"

text \<open>Lazy: the shortest first; \<open>n\<close> counts the lengths still to try after \<open>j\<close>.\<close>

fun try_up :: "nat \<Rightarrow> nat \<Rightarrow> (nat \<Rightarrow> 'a option) \<Rightarrow> 'a option" where
  "try_up j 0 k = k j"
| "try_up j (Suc n) k = (case k j of Some r \<Rightarrow> Some r | None \<Rightarrow> try_up (Suc j) n k)"

definition at_boundary :: "mstate \<Rightarrow> bool" where
  "at_boundary st \<longleftrightarrow>
     (case prev st of None \<Rightarrow> False | Some c \<Rightarrow> is_word c)
     \<noteq> (case rest st of [] \<Rightarrow> False | c # _ \<Rightarrow> is_word c)"

fun rx_match :: "rx \<Rightarrow> mstate \<Rightarrow> (mstate \<Rightarrow> mstate option) \<Rightarrow> mstate option" where
  "rx_match (Cls p) st k =
     (case rest st of
        [] \<Rightarrow> None
      | c # cs \<Rightarrow> if p c then k (st\<lparr>prev := Some c, rest := cs\<rparr>) else None)"
| "rx_match Eps st k = k st"
| "rx_match (Seq a b) st k = rx_match a st (\<lambda>st'. rx_match b st' k)"
| "rx_match (Alt a b) st k =
     (case rx_match a st k of Some r \<Rightarrow> Some r | None \<Rightarrow> rx_match b st k)"
| "rx_match (Many p lo) st k =
     try_down (length (takeWhile p (rest st))) lo (\<lambda>j. k (advance j st))"
| "rx_match Lazy_any st k = try_up 0 (length (rest st)) (\<lambda>j. k (advance j st))"
| "rx_match WordB st k = (if at_boundary st then k st else None)"
| "rx_match (Ahead a) st k =
     (case rx_match a st Some of None \<Rightarrow> None | Some _ \<Rightarrow> k st)"
| "rx_match At_end st k = (if rest st = [] then k st else None)"
| "rx_match (Group a) st k =
     rx_match a st
       (\<lambda>st'. k (st'\<lparr>cap := Some (take (length (rest st) - length (rest st')) (rest st))\<rparr>))"

text \<open>
  What \<open>findall\<close> reports for a match that started at \<open>s\<close>: the group when the
  pattern has one, the matched text otherwise.
\<close>

definition match_text :: "bool \<Rightarrow> string \<Rightarrow> mstate \<Rightarrow> string" where
  "match_text grouped s st =
     (if grouped then (case cap st of Some g \<Rightarrow> g | None \<Rightarrow> [])
      else take (length s - length (rest st)) s)"

text \<open>
  \<open>re.findall\<close>: scan from the left; after a match continue at its end, otherwise one
  character further. (None of the patterns below matches the empty string; an empty
  match moves one character on.)
\<close>

function findall_at :: "rx \<Rightarrow> bool \<Rightarrow> char option \<Rightarrow> string \<Rightarrow> string list" where
  "findall_at r grouped p s =
     (case rx_match r \<lparr>prev = p, rest = s, cap = None\<rparr> Some of
        Some st \<Rightarrow>
          (if length (rest st) < length s
           then match_text grouped s st # findall_at r grouped (prev st) (rest st)
           else (case s of
                   [] \<Rightarrow> [match_text grouped s st]
                 | c # cs \<Rightarrow> match_text grouped s st # findall_at r grouped (Some c) cs))
      | None \<Rightarrow>
          (case s of
             [] \<Rightarrow> []
           | c # cs \<Rightarrow> findall_at r grouped (Some c) cs))"
  by pat_completeness auto
termination
  by (relation "measure (\<lambda>(r, grouped, p, s). length s)") auto

declare findall_at.simps [simp del]

definition findall :: "rx \<Rightarrow> bool \<Rightarrow> string \<Rightarrow> string list" where
  "findall r grouped s = findall_at r grouped None s"

fun seqs :: "rx list \<Rightarrow> rx" where
  "seqs [] = Eps"
| "seqs [r] = r"
| "seqs (r # rs) = Seq r (seqs rs)"

fun alts :: "rx list \<Rightarrow> rx" where
  "alts [] = Eps"
| "alts [r] = r"
| "alts (r # rs) = Alt r (alts rs)"

definition chr :: "char \<Rightarrow> rx" where
  "chr c = Cls (\<lambda>d. d = c)"

definition digit :: rx where
  "digit = Cls is_digit"

text \<open>\<open>r?\<close>\<close>

definition opt :: "rx \<Rightarrow> rx" where
  "opt r = Alt r Eps"

text \<open>A literal under \<open>(?i)\<close>, given in lower case.\<close>

definition lit_ci :: "string \<Rightarrow> rx" where
  "lit_ci w = seqs (map (\<lambda>c. Cls (\<lambda>d. lower_char d = c)) w)"

section \<open>The external guard\<close>

text \<open>
  \<open>Guard.validate\<close> of Guardrails AI is not part of the repository: it is a parameter,
  a function of the text that either raises or returns an outcome object. The code
  reads the outcome with \<open>getattr\<close> and \<open>hasattr\<close>, so \<open>validation_passed\<close> and
  \<open>validated_output\<close> may be absent (\<open>None\<close> here). An error is a dict, of which the
  code reads the four keys below (all strings), or any other object; \<open>as_str\<close> is what
  \<open>str(error)\<close> gives.
\<close>

record error_dict =
  err_validator :: "string option"
  err_name :: "string option"
  err_error :: "string option"
  err_message :: "string option"
  as_str :: string

datatype guard_error = ErrDict error_dict | ErrOther string

record guard_result =
  validation_passed :: "bool option"
  validated_output :: "pyval option"
  errors :: "guard_error list"
  error :: "guard_error option"

datatype guard_outcome = Raises | Returns guard_result

type_synonym guard = "string \<Rightarrow> guard_outcome"

text \<open>The truth value of an error object: a dict with a key, a non-empty string.\<close>

fun error_truthy :: "guard_error \<Rightarrow> bool" where
  "error_truthy (ErrDict d) =
     (err_validator d \<noteq> None \<or> err_name d \<noteq> None \<or> err_error d \<noteq> None \<or> err_message d \<noteq> None)"
| "error_truthy (ErrOther s) = (s \<noteq> [])"

text \<open>The list the code loops over: \<open>errors\<close>, or the single \<open>error\<close> when that is empty.\<close>

definition errors_of :: "guard_result \<Rightarrow> guard_error list" where
  "errors_of result =
     (if errors result = []
      then (case error result of
              Some e \<Rightarrow> if error_truthy e then [e] else []
            | None \<Rightarrow> [])
      else errors result)"

fun error_validator_name :: "guard_error \<Rightarrow> string" where
  "error_validator_name (ErrDict d) =
     (case err_validator d of
        Some v \<Rightarrow> v
      | None \<Rightarrow> (case err_name d of Some n \<Rightarrow> n | None \<Rightarrow> ''unknown''))"
| "error_validator_name (ErrOther s) = ''unknown''"

fun error_msg :: "guard_error \<Rightarrow> string" where
  "error_msg (ErrDict d) =
     (case err_error d of
        Some e \<Rightarrow> e
      | None \<Rightarrow> (case err_message d of Some m \<Rightarrow> m | None \<Rightarrow> as_str d))"
| "error_msg (ErrOther s) = s"

section \<open>OutputGuardrail\<close>

text \<open>
  The dict a guardrail's \<open>validate\<close> returns; \<open>sanitized\<close> is the key
  \<open>sanitized_output\<close> of the output guardrail and \<open>sanitized_input\<close> of the input
  guardrail.
\<close>

record validation_result =
  valid :: bool
  violations :: "violation list"
  sanitized :: pyval

record output_guardrail =
  output_guard :: "guard option"

text \<open>\<open>[A-Za-z0-9._%+-]\<close>, \<open>[A-Za-z0-9.-]\<close> and \<open>[A-Z|a-z]\<close>\<close>

definition email_local :: "char \<Rightarrow> bool" where
  "email_local c \<longleftrightarrow> is_alpha c \<or> is_digit c \<or> c \<in> set ''._%+-''"

definition email_domain :: "char \<Rightarrow> bool" where
  "email_domain c \<longleftrightarrow> is_alpha c \<or> is_digit c \<or> c \<in> set ''.-''"

definition email_tld :: "char \<Rightarrow> bool" where
  "email_tld c \<longleftrightarrow> is_alpha c \<or> c = CHR ''|''"

definition email_pattern :: rx where
  "email_pattern =
     seqs [WordB, Many email_local 1, chr CHR ''@'', Many email_domain 1, chr CHR ''.'',
           Many email_tld 2, WordB]"

definition dash_or_dot :: rx where
  "dash_or_dot = opt (Cls (\<lambda>c. c \<in> set ''-.''))"

definition phone_pattern :: rx where
  "phone_pattern =
     seqs [WordB, digit, digit, digit, dash_or_dot, digit, digit, digit, dash_or_dot,
           digit, digit, digit, digit, WordB]"

definition ssn_pattern :: rx where
  "ssn_pattern =
     seqs [WordB, digit, digit, digit, chr CHR ''-'', digit, digit, chr CHR ''-'',
           digit, digit, digit, digit, WordB]"

definition patterns :: "(string \<times> rx) list" where
  "patterns = [(''email'', email_pattern), (''phone'', phone_pattern), (''ssn'', ssn_pattern)]"

definition pii_violation :: "string \<Rightarrow> string \<Rightarrow> string \<Rightarrow> string list \<Rightarrow> violation" where
  "pii_violation ty why sev ms =
     \<lparr>validator = Some ''detect_pii'', category = Some ''personal_attacks'',
      reason = Some why, severity = Some sev, pii_type = Some ty,
      matches = Some ms, pattern = None\<rparr>"

definition check_pii :: "string \<Rightarrow> violation list" where
  "check_pii text =
     concat (map (\<lambda>(ty, pat).
        let ms = findall pat False text
        in if ms \<noteq> [] then [pii_violation ty (''Contains '' @ ty) ''high'' ms] else [])
      patterns)"

definition check_citation_pii :: "string \<Rightarrow> violation list" where
  "check_citation_pii citation_text =
     (if citation_text = [] then []
      else concat (map (\<lambda>(ty, pat).
        let ms = findall pat False citation_text
        in if ms \<noteq> []
           then [pii_violation ty (''Contains '' @ ty @ '' in citations'') ''medium'' ms]
           else [])
      patterns))"

text \<open>
  The header of both citation patterns:
  \<open>(?i)(?:References|Bibliography|Works Cited|Citations?)(?:\s*:)?\s*\n\<close>
\<close>

definition citation_header :: rx where
  "citation_header =
     seqs [alts [lit_ci ''references'', lit_ci ''bibliography'', lit_ci ''works cited'',
                 Seq (lit_ci ''citation'') (opt (lit_ci ''s''))],
           opt (Seq (Many is_space 0) (chr CHR '':'')),
           Many is_space 0, chr newline]"

definition citation_patterns :: "rx list" where
  "citation_patterns =
     [seqs [citation_header, Group Lazy_any, Ahead (Alt (Seq (chr newline) (chr newline)) At_end)],
      seqs [citation_header, Group (Many (\<lambda>c. True) 0)]]"

fun first_citation_match :: "rx list \<Rightarrow> string \<Rightarrow> string" where
  "first_citation_match [] text = []"
| "first_citation_match (pat # pats) text =
     (let ms = findall pat True text
      in if ms \<noteq> [] then join [newline] ms else first_citation_match pats text)"

definition extract_citation_sections :: "string \<Rightarrow> string" where
  "extract_citation_sections text = first_citation_match citation_patterns text"

definition citation_indicators :: "string list" where
  "citation_indicators =
     [''http'', ''https'', ''www.'', ''.com'', ''.org'', ''.net'', ''.edu'',
      ''doi:'', ''author'', ''journal'', ''conference'', ''bibliography'', ''references'']"

definition is_citation_false_positive :: "string \<Rightarrow> string \<Rightarrow> bool" where
  "is_citation_false_positive msg full_text =
     (let error_lower = lower msg
      in if \<exists>indicator \<in> set [''http'', ''url'', ''link'', ''domain'']. sublist indicator error_lower
         then (let citation_section = extract_citation_sections full_text
               in citation_section \<noteq> [] \<and> 50 < length citation_section \<and>
                  (\<exists>indicator \<in> set citation_indicators. sublist indicator (lower citation_section)))
         else False)"

definition check_harmful_content :: "string \<Rightarrow> violation list" where
  "check_harmful_content text =
     concat (map (\<lambda>keyword.
        if sublist keyword (lower text)
        then [mk_violation ''toxic_language'' ''harmful_content''
                (''May contain harmful content: '' @ keyword) ''medium'']
        else [])
      [''violent'', ''harmful'', ''dangerous''])"

definition check_bias :: "string \<Rightarrow> violation list" where
  "check_bias text = []"

definition output_category_map :: "string \<Rightarrow> string" where
  "output_category_map validator_name =
     (case map_of [(''ToxicLanguage'', ''harmful_content''), (''DetectPII'', ''personal_attacks''),
                   (''BiasCheck'', ''misinformation'')] validator_name of
        Some c \<Rightarrow> c | None \<Rightarrow> ''unknown'')"

text \<open>The body of the loop over the guard's errors in \<open>OutputGuardrail.validate\<close>.\<close>

definition output_error_violation :: "string \<Rightarrow> guard_error \<Rightarrow> violation list" where
  "output_error_violation response e =
     (let validator_name = error_validator_name e; msg = error_msg e
      in if validator_name = ''DetectPII'' \<and> is_citation_false_positive msg response
         then []
         else [mk_violation (str_replace (lower validator_name) '' '' ''_'')
                 (output_category_map validator_name) msg
                 (if validator_name \<in> set [''ToxicLanguage'', ''DetectPII'']
                  then ''high'' else ''medium'')])"

definition MAX_VALIDATION_LENGTH :: nat where
  "MAX_VALIDATION_LENGTH = 1500"

text \<open>
  The block under \<open>if self.guard\<close>: the violations the guard contributes and the value
  of \<open>sanitized_output\<close> after it. An exception of the guard is caught and leaves both
  as they were.
\<close>

definition output_guard_part :: "guard option \<Rightarrow> string \<Rightarrow> violation list \<times> pyval" where
  "output_guard_part g response =
     (case g of
        None \<Rightarrow> ([], PStr response)
      | Some validate_fn \<Rightarrow>
          (let was_truncated = (MAX_VALIDATION_LENGTH < length response);
               response_for_validation =
                 (if was_truncated
                  then take MAX_VALIDATION_LENGTH response @ ''... [truncated for validation]''
                  else response)
           in case validate_fn response_for_validation of
                Raises \<Rightarrow> ([], PStr response)
              | Returns result \<Rightarrow>
                  (let passed = (case validation_passed result of Some b \<Rightarrow> b | None \<Rightarrow> True);
                       sanitized_output =
                         (case validated_output result of
                            Some v \<Rightarrow> if was_truncated then PStr response else v
                          | None \<Rightarrow> PStr response)
                   in (if passed then []
                       else concat (map (output_error_violation response) (errors_of result)),
                       sanitized_output))))"

text \<open>
  \<open>OutputGuardrail.validate(response)\<close> for a \<open>str\<close> response and no sources, as the
  safety manager calls it (\<open>_check_factual_consistency\<close> returns no violation anyway).
\<close>

definition output_validate :: "output_guardrail \<Rightarrow> string \<Rightarrow> validation_result" where
  "output_validate og response =
     (let citation_sections = extract_citation_sections response;
          (guard_violations, sanitized_output) = output_guard_part (output_guard og) response;
          vs = guard_violations
               @ check_pii response
               @ (if citation_sections \<noteq> [] then check_citation_pii citation_sections else [])
               @ check_harmful_content response
               @ check_bias response
      in \<lparr>valid = (length vs = 0),
          violations = vs,
          sanitized = (if vs \<noteq> [] then PStr (sanitize response vs) else sanitized_output)\<rparr>)"

section \<open>InputGuardrail\<close>

record input_guardrail =
  input_guard :: "guard option"
  topic :: string

definition input_category_map :: "(string \<times> string) list" where
  "input_category_map =
     [(''ToxicLanguage'', ''harmful_content''), (''DetectPII'', ''personal_attacks''),
      (''DetectPromptInjection'', ''harmful_content''), (''prompt_injection'', ''harmful_content'')]"

text \<open>The validator name as the configuration spells it.\<close>

definition normalize_name :: "string \<Rightarrow> string" where
  "normalize_name validator_name =
     (let normalized_name =
            str_replace
              (str_replace
                 (str_replace (str_replace (lower validator_name) '' '' ''_'') ''detect'' [])
                 ''_'' [])
              ''promptinjection'' ''prompt_injection''
      in if sublist ''prompt'' normalized_name \<and> sublist ''injection'' normalized_name
         then ''prompt_injection''
         else if sublist ''toxic'' normalized_name then ''toxic_language''
         else if sublist ''pii'' normalized_name then ''detect_pii''
         else normalized_name)"

text \<open>The body of the loop over the guard's errors in \<open>InputGuardrail.validate\<close>.\<close>

definition input_error_violation :: "guard_error \<Rightarrow> violation" where
  "input_error_violation e =
     (let validator_name = error_validator_name e;
          msg = error_msg e;
          normalized_name = normalize_name validator_name
      in mk_violation normalized_name
           (case map_of input_category_map validator_name of
              Some c \<Rightarrow> c
            | None \<Rightarrow> (case map_of input_category_map normalized_name of
                         Some c \<Rightarrow> c | None \<Rightarrow> ''unknown''))
           msg
           (if validator_name \<in> set [''ToxicLanguage'', ''DetectPromptInjection'']
               \<or> sublist ''prompt_injection'' normalized_name
            then ''high'' else ''medium''))"

definition input_guard_part :: "guard option \<Rightarrow> string \<Rightarrow> violation list \<times> pyval" where
  "input_guard_part g query =
     (case g of
        None \<Rightarrow> ([], PStr query)
      | Some validate_fn \<Rightarrow>
          (case validate_fn query of
             Raises \<Rightarrow> ([], PStr query)
           | Returns result \<Rightarrow>
               (let passed = (case validation_passed result of Some b \<Rightarrow> b | None \<Rightarrow> True);
                    sanitized_input =
                      (case validated_output result of Some v \<Rightarrow> v | None \<Rightarrow> PStr query)
                in (if passed then [] else map input_error_violation (errors_of result),
                    sanitized_input))))"

definition check_toxic_language :: "string \<Rightarrow> violation list" where
  "check_toxic_language text = []"

definition injection_patterns :: "(string \<times> string) list" where
  "injection_patterns =
     [(''ignore previous instructions'', ''high''),
      (''ignore all previous'', ''high''),
      (''disregard all previous'', ''high''),
      (''forget everything'', ''high''),
      (''forget all previous'', ''high''),
      (''disregard the above'', ''high''),
      (''ignore the above'', ''high''),
      (''override'', ''high''),
      (''bypass'', ''high''),
      (''system:'', ''high''),
      (''system prompt:'', ''high''),
      (''you are now'', ''high''),
      (''you are a'', ''high''),
      (''act as'', ''high''),
      (''pretend to be'', ''high''),
      (''roleplay as'', ''high''),
      (''sudo'', ''high''),
      (''execute'', ''high''),
      (''run command'', ''high''),
      (''run code'', ''high''),
      (''<script>'', ''high''),
      (''javascript:'', ''high''),
      (''new instructions:'', ''high''),
      (''updated instructions:'', ''high''),
      (''revised instructions:'', ''high''),
      (''your new task is'', ''high''),
      (''your new role is'', ''high''),
      (''previous conversation'', ''medium''),
      (''earlier instructions'', ''medium''),
      (''initial prompt'', ''medium''),
      (''original prompt'', ''medium''),
      (''base64'', ''medium''),
      (''decode this'', ''medium''),
      (''translate this'', ''medium'')]"

text \<open>The loop over the table, left at the first high-severity hit.\<close>

fun scan_injection :: "string \<Rightarrow> (string \<times> string) list \<Rightarrow> violation list" where
  "scan_injection text_lower [] = []"
| "scan_injection text_lower ((pat, sev) # table) =
     (if sublist pat text_lower
      then (mk_violation ''prompt_injection'' ''harmful_content''
              (''Potential prompt injection detected: '' @ [CHR 0x27] @ pat @ [CHR 0x27]) sev)
             \<lparr>pattern := Some pat\<rparr>
           # (if sev = ''high'' then [] else scan_injection text_lower table)
      else scan_injection text_lower table)"

definition check_prompt_injection :: "string \<Rightarrow> violation list" where
  "check_prompt_injection text = scan_injection (lower text) injection_patterns"

definition topic_keywords :: "string list" where
  "topic_keywords =
     [''ethical'', ''ethics'', ''ai'', ''artificial intelligence'', ''education'',
      ''educational'', ''learning'', ''teaching'', ''pedagogy'', ''student'',
      ''bias'', ''fairness'', ''transparency'', ''accountability'', ''privacy'',
      ''algorithm'', ''machine learning'', ''automated'', ''assessment'']"

definition check_relevance :: "input_guardrail \<Rightarrow> string \<Rightarrow> violation list" where
  "check_relevance ig query =
     (let query_lower = lower query;
          relevant_keywords_found =
            length (filter (\<lambda>keyword. sublist keyword query_lower) topic_keywords)
      in if relevant_keywords_found = 0 \<and> 3 \<le> count_tokens False query
         then [mk_violation ''off_topic'' ''off_topic_queries''
                 (''Query does not appear to be related to '' @ [CHR 0x27] @ topic ig @ [CHR 0x27])
                 ''medium'']
         else [])"

definition input_validate :: "input_guardrail \<Rightarrow> string \<Rightarrow> validation_result" where
  "input_validate ig query =
     (let (guard_violations, sanitized_input) = input_guard_part (input_guard ig) query;
          vs = (if length query < 5
                then [mk_violation ''length'' ''format'' ''Query too short'' ''low''] else [])
               @ (if 2000 < length query
                  then [mk_violation ''length'' ''format'' ''Query too long'' ''medium''] else [])
               @ guard_violations
               @ check_toxic_language query
               @ check_prompt_injection query
               @ check_relevance ig query
      in \<lparr>valid = (length vs = 0), violations = vs, sanitized = sanitized_input\<rparr>)"

section \<open>SafetyManager\<close>

datatype direction = Input | Output

record safety_event =
  timestamp :: string
  event_type :: direction
  event_safe :: bool
  event_violations :: "violation list"
  content_preview :: string

text \<open>
  The manager after \<open>__init__\<close>. \<open>response_strategies\<close> is the dict of the
  configuration: its entries \<open>input\<close> and \<open>output\<close> map validator names to strategy
  dicts (empty when the entry is missing), its entry \<open>default\<close> is a strategy dict or
  missing.
\<close>

record safety_manager =
  enabled :: bool
  log_events :: bool
  input_strategies :: "(string \<times> pydict) list"
  output_strategies :: "(string \<times> pydict) list"
  default_strategy :: "pydict option"
  on_violation :: pydict
  input_guardrail :: "input_guardrail option"
  output_guardrail :: "output_guardrail option"
  safety_events :: "safety_event list"

text \<open>
  The dicts the two checks return: \<open>safe\<close> is always there, the other keys only when
  the code sets them. \<open>found\<close> is the key \<open>violations\<close>.
\<close>

record check_result =
  safe :: bool
  found :: "violation list option"
  sanitized_query :: "pyval option"
  message :: "pyval option"
  response :: "pyval option"

record strategy_result =
  action :: pyval
  strategy_message :: pyval
  sanitized_content :: "pyval option"

datatype py_error = TypeError

definition input_refusal :: string where
  "input_refusal = ''I cannot process this request due to safety policies.''"

definition output_refusal :: string where
  "output_refusal = ''I cannot provide this response due to safety policies.''"

definition get_response_strategy :: "safety_manager \<Rightarrow> string \<Rightarrow> direction \<Rightarrow> pydict" where
  "get_response_strategy m validator_name violation_type =
     (let strategies = (case violation_type of Input \<Rightarrow> input_strategies m
                                              | Output \<Rightarrow> output_strategies m);
          strategy = map_of strategies validator_name
      in case strategy of
           Some d \<Rightarrow> if d \<noteq> [] then d else
             (case default_strategy m of
                Some dflt \<Rightarrow> dflt
              | None \<Rightarrow> [(''action'', dict_get (on_violation m) ''action'' (PStr ''refuse'')),
                         (''message'', dict_get (on_violation m) ''message'' (PStr input_refusal))])
         | None \<Rightarrow>
             (case default_strategy m of
                Some dflt \<Rightarrow> dflt
              | None \<Rightarrow> [(''action'', dict_get (on_violation m) ''action'' (PStr ''refuse'')),
                         (''message'', dict_get (on_violation m) ''message'' (PStr input_refusal))]))"

text \<open>\<open>severity_order.get(v.get("severity", "low"), 1)\<close>\<close>

definition severity_order :: "violation \<Rightarrow> nat" where
  "severity_order v =
     (case map_of [(''high'', 3), (''medium'', 2), (''low'', 1)]
             (case severity v of Some s \<Rightarrow> s | None \<Rightarrow> ''low'') of
        Some n \<Rightarrow> n
      | None \<Rightarrow> 1)"

text \<open>Python's \<open>max(xs, key=f)\<close> on a non-empty list: the first of the largest.\<close>

definition max_by :: "('a \<Rightarrow> nat) \<Rightarrow> 'a \<Rightarrow> 'a list \<Rightarrow> 'a" where
  "max_by key x xs = foldl (\<lambda>best y. if key best < key y then y else best) x xs"

text \<open>\<open>highest_severity_violation\<close> of \<open>_apply_strategy\<close>, for a non-empty list.\<close>

definition highest_severity_violation :: "violation list \<Rightarrow> violation" where
  "highest_severity_violation vs = max_by severity_order (hd vs) (tl vs)"

text \<open>The rest of \<open>_apply_strategy\<close>, once the violation is chosen.\<close>

definition strategy_for :: "safety_manager \<Rightarrow> violation \<Rightarrow> string \<Rightarrow> direction \<Rightarrow> strategy_result" where
  "strategy_for m v content content_type =
     (let validator_name = (case validator v of
                              Some n \<Rightarrow> n | None \<Rightarrow> []);
          strategy = get_response_strategy m validator_name content_type;
          act = dict_get strategy ''action'' (PStr ''refuse'');
          msg = dict_get strategy ''message''
                  (dict_get (on_violation m) ''message'' (PStr input_refusal))
      in \<lparr>action = act, strategy_message = msg,
          sanitized_content =
            (if act = PStr ''sanitize''
             then (case content_type of
                     Input \<Rightarrow> (case input_guardrail m of
                                 Some ig \<Rightarrow> Some (sanitized (input_validate ig content))
                               | None \<Rightarrow> Some (PStr content))
                   | Output \<Rightarrow> (case output_guardrail m of
                                  Some og \<Rightarrow> Some (sanitized (output_validate og content))
                                | None \<Rightarrow> Some (PStr content)))
             else None)\<rparr>)"

fun apply_strategy :: "safety_manager \<Rightarrow> violation list \<Rightarrow> string \<Rightarrow> direction \<Rightarrow> strategy_result" where
  "apply_strategy m [] content content_type =
     \<lparr>action = PStr ''allow'', strategy_message = PNone, sanitized_content = None\<rparr>"
| "apply_strategy m (v # vs) content content_type =
     strategy_for m (highest_severity_violation (v # vs)) content content_type"

text \<open>
  \<open>_log_safety_event\<close>; \<open>now\<close> is what \<open>datetime.now().isoformat()\<close> gives, and
  \<open>event_type\<close>, \<open>event_safe\<close> and \<open>event_violations\<close> are the keys \<open>type\<close>,
  \<open>safe\<close> and \<open>violations\<close> of the event. The line appended to the optional log
  file is not modelled.
\<close>

definition log_safety_event ::
  "safety_manager \<Rightarrow> string \<Rightarrow> direction \<Rightarrow> string \<Rightarrow> violation list \<Rightarrow> bool \<Rightarrow> safety_manager" where
  "log_safety_event m now ty content vs is_safe =
     m\<lparr>safety_events := safety_events m @
          [\<lparr>timestamp = now, event_type = ty, event_safe = is_safe, event_violations = vs,
            content_preview = (if 100 < length content then take 100 content @ ''...''
                               else content)\<rparr>]\<rparr>"

definition check_input_safety ::
  "safety_manager \<Rightarrow> string \<Rightarrow> string \<Rightarrow> py_error + (safety_manager \<times> check_result)" where
  "check_input_safety m now query =
     (case (if enabled m then input_guardrail m else None) of
        None \<Rightarrow> Inr (m, \<lparr>safe = True, found = None, sanitized_query = None,
                          message = None, response = None\<rparr>)
      | Some ig \<Rightarrow>
          (let validation = input_validate ig query;
               vs = violations validation;
               strategy = apply_strategy m vs query Input;
               (is_safe, sanitized_q) =
                 (if vs \<noteq> [] then
                    (if action strategy = PStr ''refuse'' then (False, PNone)
                     else if action strategy = PStr ''sanitize''
                     then (valid validation,
                           (case sanitized_content strategy of
                              Some c \<Rightarrow> c | None \<Rightarrow> sanitized validation))
                     else if action strategy = PStr ''redirect'' then (False, PNone)
                     else (valid validation, sanitized validation))
                  else (valid validation, sanitized validation));
               m' = (if \<not> is_safe \<and> log_events m
                     then log_safety_event m now Input query vs is_safe else m);
               strategy_msg = (if vs \<noteq> [] then strategy_message strategy else PNone)
           in Inr (m', \<lparr>safe = is_safe, found = Some vs,
                        sanitized_query = (if truthy sanitized_q then Some sanitized_q else None),
                        message = (if truthy strategy_msg then Some strategy_msg else None),
                        response = None\<rparr>)))"

text \<open>\<open>len(x)\<close> of a value that should be a \<open>str\<close>.\<close>

fun py_len :: "pyval \<Rightarrow> py_error + nat" where
  "py_len (PStr s) = Inr (length s)"
| "py_len v = Inl TypeError"

text \<open>
  \<open>check_output_safety\<close>. The comparison \<open>len(final_response) < len(response) * 0.5\<close>
  is written over the naturals.
\<close>

definition check_output_safety ::
  "safety_manager \<Rightarrow> string \<Rightarrow> string \<Rightarrow> py_error + (safety_manager \<times> check_result)" where
  "check_output_safety m now resp =
     (case (if enabled m then output_guardrail m else None) of
        None \<Rightarrow> Inr (m, \<lparr>safe = True, found = None, sanitized_query = None,
                          message = None, response = Some (PStr resp)\<rparr>)
      | Some og \<Rightarrow>
          (let validation = output_validate og resp;
               vs = violations validation;
               strategy = apply_strategy m vs resp Output;
               refusal = dict_get (on_violation m) ''message'' (PStr output_refusal);
               finish = (\<lambda>is_safe final_response.
                 Inr (if \<not> is_safe \<and> log_events m
                      then log_safety_event m now Output resp vs is_safe else m,
                      \<lparr>safe = is_safe, found = Some vs, sanitized_query = None,
                       message = None, response = Some final_response\<rparr>))
           in if vs \<noteq> [] then
                (if action strategy = PStr ''refuse''
                 then finish False (strategy_message strategy)
                 else if action strategy = PStr ''sanitize''
                 then (let final_response =
                             (case sanitized_content strategy of
                                Some c \<Rightarrow> c | None \<Rightarrow> sanitized validation)
                       in case py_len final_response of
                            Inl e \<Rightarrow> Inl e
                          | Inr n \<Rightarrow>
                              if 2 * n < length resp
                              then (let first_strategy =
                                          get_response_strategy m
                                            (case validator (hd vs) of Some v \<Rightarrow> v | None \<Rightarrow> [])
                                            Output
                                    in if truthy (dict_get first_strategy ''fallback_to_refuse''
                                                    (PBool False))
                                       then finish False (dict_get first_strategy ''message'' refusal)
                                       else finish (valid validation) final_response)
                              else finish (valid validation) final_response)
                 else finish (valid validation) (PStr resp))
              else finish (valid validation) (PStr resp)))"

text \<open>\<open>_sanitize_response\<close>\<close>

definition sanitize_response :: "safety_manager \<Rightarrow> string \<Rightarrow> violation list \<Rightarrow> string" where
  "sanitize_response m resp vs =
     (case output_guardrail m of
        Some og \<Rightarrow> sanitize resp vs
      | None \<Rightarrow>
          foldl (\<lambda>sanitized v.
                   if validator v = Some ''detect_pii''
                   then redact sanitized (case matches v of Some ms \<Rightarrow> ms | None \<Rightarrow> [])
                   else sanitized) resp vs)"

record safety_stats =
  total_events :: nat
  input_checks :: nat
  output_checks :: nat
  violation_count :: nat
  violation_rate :: rat

text \<open>
  \<open>get_safety_stats\<close>; the key \<open>violations\<close> of the returned dict is the field
  \<open>violation_count\<close>, and the quotient is exact here (Python's is a float).
\<close>

definition get_safety_stats :: "safety_manager \<Rightarrow> safety_stats" where
  "get_safety_stats m =
     (let total = length (safety_events m);
          input_events = length (filter (\<lambda>e. event_type e = Input) (safety_events m));
          output_events = length (filter (\<lambda>e. event_type e = Output) (safety_events m));
          vcount = length (filter (\<lambda>e. \<not> event_safe e) (safety_events m))
      in \<lparr>total_events = total, input_checks = input_events, output_checks = output_events,
          violation_count = vcount,
          violation_rate = (if 0 < total then of_nat vcount / of_nat total else 0)\<rparr>)"

definition clear_events :: "safety_manager \<Rightarrow> safety_manager" where
  "clear_events m = m\<lparr>safety_events := []\<rparr>"

section \<open>Auxiliary notions and example configurations\<close>

text \<open>All the matches \<open>_sanitize\<close> redacts for a violation list, in the order it does.\<close>

definition all_matches :: "violation list \<Rightarrow> string list" where
  "all_matches vs = concat (map pii_matches vs)"

text \<open>
  A manager built from an empty configuration with Guardrails AI not installed: both
  guardrails use their built-in checks only, every strategy is the default one.
\<close>

definition fallback_input_guardrail :: input_guardrail where
  "fallback_input_guardrail = \<lparr>input_guard = None, topic = ''Ethical AI in Education''\<rparr>"

definition fallback_output_guardrail :: output_guardrail where
  "fallback_output_guardrail = \<lparr>output_guard = None\<rparr>"

definition default_manager :: safety_manager where
  "default_manager =
     \<lparr>enabled = True, log_events = True, input_strategies = [], output_strategies = [],
      default_strategy = None, on_violation = [],
      input_guardrail = Some fallback_input_guardrail,
      output_guardrail = Some fallback_output_guardrail,
      safety_events = []\<rparr>"

text \<open>The manager of a configuration with \<open>enabled: false\<close>.\<close>

definition disabled_manager :: safety_manager where
  "disabled_manager =
     default_manager\<lparr>enabled := False, input_guardrail := None, output_guardrail := None\<rparr>"

definition email_violation :: "string list \<Rightarrow> violation" where
  "email_violation ms = pii_violation ''email'' ''Contains email'' ''high'' ms"

text \<open>A violation of the validator \<open>pii\<close>, as \<open>_sanitize\<close> also accepts it.\<close>

definition name_violation :: "string list \<Rightarrow> violation" where
  "name_violation ms =
     \<lparr>validator = Some ''pii'', category = Some ''personal_attacks'',
      reason = Some ''Contains name'', severity = Some ''high'', pii_type = None,
      matches = Some ms, pattern = None\<rparr>"

definition short_query_violation :: violation where
  "short_query_violation = mk_violation ''length'' ''format'' ''Query too short'' ''low''"

definition harmful_violation :: "string \<Rightarrow> violation" where
  "harmful_violation keyword =
     mk_violation ''toxic_language'' ''harmful_content''
       (''May contain harmful content: '' @ keyword) ''medium''"

text \<open>A configuration whose strategies for a too short query and for PII in a response
  have the action \<open>allow\<close>.\<close>

definition allow_manager :: safety_manager where
  "allow_manager =
     default_manager
       \<lparr>input_strategies := [(''length'', [(''action'', PStr ''allow'')])],
        output_strategies := [(''detect_pii'', [(''action'', PStr ''allow'')])]\<rparr>"

text \<open>A configuration that redirects off-topic queries and responses with PII.\<close>

definition redirect_manager :: safety_manager where
  "redirect_manager =
     default_manager
       \<lparr>input_strategies :=
          [(''off_topic'', [(''action'', PStr ''redirect''),
                            (''message'', PStr ''Please ask about the topic.'')])],
        output_strategies :=
          [(''detect_pii'', [(''action'', PStr ''redirect''),
                             (''message'', PStr ''Please ask about the topic.'')])]\<rparr>"

text \<open>An external guard that passes every text and hands back its lower-case form.\<close>

definition rewriting_guard :: guard where
  "rewriting_guard q =
     Returns \<lparr>validation_passed = Some True, validated_output = Some (PStr (lower q)),
              errors = [], error = None\<rparr>"

definition rewriting_input_guardrail :: input_guardrail where
  "rewriting_input_guardrail =
     \<lparr>input_guard = Some rewriting_guard, topic = ''Ethical AI in Education''\<rparr>"

definition rewriting_manager :: safety_manager where
  "rewriting_manager = default_manager\<lparr>input_guardrail := Some rewriting_input_guardrail\<rparr>"

text \<open>An external guard whose \<open>BiasCheck\<close> validator fails on every text.\<close>

definition bias_guard :: guard where
  "bias_guard r =
     Returns \<lparr>validation_passed = Some False, validated_output = None,
              errors = [ErrDict \<lparr>err_validator = Some ''BiasCheck'', err_name = None,
                                 err_error = Some ''Biased wording'', err_message = None,
                                 as_str = []\<rparr>],
              error = None\<rparr>"

definition bias_output_guardrail :: output_guardrail where
  "bias_output_guardrail = \<lparr>output_guard = Some bias_guard\<rparr>"

text \<open>A configuration that sanitizes PII in responses and asks for the refusal when too
  much is removed, with the guard above installed.\<close>

definition fallback_manager :: safety_manager where
  "fallback_manager =
     default_manager
       \<lparr>output_strategies :=
          [(''detect_pii'', [(''action'', PStr ''sanitize''),
                             (''message'', PStr ''Response withheld.''),
                             (''fallback_to_refuse'', PBool True)])],
        output_guardrail := Some bias_output_guardrail\<rparr>"

text \<open>The calls that change the event log, and a manager after a sequence of them. A
  check that raises leaves the log as it is.\<close>

datatype call = Check_input string string | Check_output string string | Clear

fun after_call :: "safety_manager \<Rightarrow> call \<Rightarrow> safety_manager" where
  "after_call m (Check_input now query) =
     (case check_input_safety m now query of Inr (m', _) \<Rightarrow> m' | Inl _ \<Rightarrow> m)"
| "after_call m (Check_output now resp) =
     (case check_output_safety m now resp of Inr (m', _) \<Rightarrow> m' | Inl _ \<Rightarrow> m)"
| "after_call m Clear = clear_events m"

definition after_calls :: "safety_manager \<Rightarrow> call list \<Rightarrow> safety_manager" where
  "after_calls m calls = foldl after_call m calls"



definition long_address_response :: string where
  "long_address_response = ''Mail abcdefghijklmnopqrstuvwxyz@example.com''"

definition bias_violation :: violation where
  "bias_violation = mk_violation ''biascheck'' ''misinformation'' ''Biased wording'' ''medium''"

definition long_address :: string where
  "long_address = ''abcdefghijklmnopqrstuvwxyz@example.com''"










text \<open>The texts a pattern can consume, whatever stands around them.\<close>

fun consumes :: "rx \<Rightarrow> string \<Rightarrow> bool" where
  "consumes (Cls p) w = (\<exists>c. w = [c] \<and> p c)"
| "consumes Eps w = (w = [])"
| "consumes (Seq a b) w = (\<exists>u v. w = u @ v \<and> consumes a u \<and> consumes b v)"
| "consumes (Alt a b) w = (consumes a w \<or> consumes b w)"
| "consumes (Many p lo) w = (list_all p w \<and> lo \<le> length w)"
| "consumes Lazy_any w = True"
| "consumes WordB w = (w = [])"
| "consumes (Ahead a) w = (w = [])"
| "consumes At_end w = (w = [])"
| "consumes (Group a) w = consumes a w"

section \<open>Facts about \<open>str.replace\<close>\<close>

lemma str_replace_length:
  "length new \<le> length old \<Longrightarrow> length (str_replace s old new) \<le> length s"
proof (induction s old new rule: str_replace.induct)
  case (1 s new)
  then show ?case by simp
next
  case (2 x old new)
  then show ?case by simp
next
  case (3 c cs x old new)
  show ?case
  proof (cases "prefix (x # old) (c # cs)")
    case True
    then have le: "length old \<le> length cs"
      by (auto dest: prefix_length_le)
    have "length (str_replace (drop (length old) cs) (x # old) new) \<le> length cs - length old"
      using "3.IH"(1) [OF True "3.prems"] by simp
    with le "3.prems" True show ?thesis by simp
  next
    case False
    with "3.IH"(2) [OF False "3.prems"] show ?thesis by auto
  qed
qed

lemma str_replace_absent:
  "old \<noteq> [] \<Longrightarrow> \<not> sublist old s \<Longrightarrow> str_replace s old new = s"
proof (induction s old new rule: str_replace.induct)
  case (3 c cs x old new)
  then show ?case by (auto simp: sublist_Cons_right)
qed simp_all

lemma str_replace_set:
  "set (str_replace s old new) \<subseteq> set s \<union> set new"
proof (induction s old new rule: str_replace.induct)
  case (3 c cs x old new)
  then show ?case by (auto dest: in_set_dropD)
qed auto

lemma prefix_Cons_absent:
  "c \<notin> set m \<Longrightarrow> prefix m (c # b) \<Longrightarrow> m = []"
  by (cases m) auto

lemma sublist_split_char:
  assumes "c \<notin> set m" "sublist m (a @ c # b)"
  shows "sublist m a \<or> sublist m b"
proof -
  from assms(2) consider "sublist m a" | "sublist m (c # b)"
    | xs1 xs2 where "m = xs1 @ xs2" "suffix xs1 a" "prefix xs2 (c # b)"
    by (auto simp: sublist_append)
  then show ?thesis
  proof cases
    case 1
    then show ?thesis by simp
  next
    case 2
    then have "prefix m (c # b) \<or> sublist m b"
      by (simp add: sublist_Cons_right)
    with assms(1) show ?thesis
      by (auto dest: prefix_Cons_absent)
  next
    case 3
    from assms(1) 3(1) have "c \<notin> set xs2" by simp
    with 3(3) have "xs2 = []" by (auto dest: prefix_Cons_absent)
    with 3 show ?thesis by auto
  qed
qed

lemma marker_split:
  assumes "marker_safe m" "sublist m (p @ redaction_marker @ r)"
  shows "sublist m p \<or> sublist m r"
proof -
  have 1: "CHR ''['' \<notin> set m" and 2: "CHR '']'' \<notin> set m" and 3: "\<not> sublist m ''REDACTED''"
    using assms(1) by (auto simp: marker_safe_def)
  have "p @ redaction_marker @ r = p @ CHR ''['' # (''REDACTED'' @ CHR '']'' # r)"
    by (simp add: redaction_marker_def)
  with assms(2) have "sublist m (p @ CHR ''['' # (''REDACTED'' @ CHR '']'' # r))"
    by simp
  from sublist_split_char [OF 1 this]
  have "sublist m p \<or> sublist m (''REDACTED'' @ CHR '']'' # r)" .
  then show ?thesis using sublist_split_char [OF 2] 3 by blast
qed

lemma str_replace_preserves_absent:
  "marker_safe m \<Longrightarrow> old \<noteq> [] \<Longrightarrow> \<not> sublist m (p @ s)
   \<Longrightarrow> \<not> sublist m (p @ str_replace s old redaction_marker)"
proof (induction s old "redaction_marker" arbitrary: p rule: str_replace.induct)
  case (1 s)
  then show ?case by simp
next
  case (2 x old)
  then show ?case by simp
next
  case (3 c cs x old)
  show ?case
  proof (cases "prefix (x # old) (c # cs)")
    case True
    then obtain r where cs: "c # cs = (x # old) @ r"
      by (auto simp: prefix_def)
    then have r: "drop (length old) cs = r" by auto
    have np: "\<not> sublist m p" and nr: "\<not> sublist m r"
      using "3.prems"(3) cs
      by (metis sublist_append, metis sublist_append)
    have "\<not> sublist m (p @ redaction_marker @ r)"
      using marker_split [OF "3.prems"(1)] np nr by blast
    then have "\<not> sublist m ((p @ redaction_marker) @ drop (length old) cs)"
      using r by simp
    from "3.hyps"(1) [OF True "3.prems"(1) _ this]
    show ?thesis using True by simp
  next
    case False
    have "\<not> sublist m ((p @ [c]) @ cs)" using "3.prems"(3) by simp
    from "3.hyps"(2) [OF False "3.prems"(1) _ this]
    show ?thesis using False by auto
  qed
qed

lemma suffix_same_length:
  "suffix m (p @ t) \<Longrightarrow> length m = length t \<Longrightarrow> m = t"
  by (auto simp: suffix_def)

lemma str_replace_removes:
  "marker_safe old \<Longrightarrow> \<not> sublist old (p @ take (length old - 1) s)
   \<Longrightarrow> \<not> sublist old (p @ str_replace s old redaction_marker)"
proof (induction s old "redaction_marker" arbitrary: p rule: str_replace.induct)
  case (1 s)
  then show ?case by (simp add: marker_safe_def)
next
  case (2 x old)
  then show ?case by simp
next
  case (3 c cs x old)
  let ?m = "x # old"
  show ?case
  proof (cases "prefix ?m (c # cs)")
    case True
    have np: "\<not> sublist ?m p"
      using "3.prems"(2) by (metis sublist_append)
    have short: "\<not> sublist ?m (take (length ?m - 1) (drop (length old) cs))"
      by (auto dest: sublist_length_le)
    have "\<not> sublist ?m (p @ redaction_marker @ take (length ?m - 1) (drop (length old) cs))"
      using marker_split [OF "3.prems"(1)] np short by blast
    then have "\<not> sublist ?m ((p @ redaction_marker) @ take (length ?m - 1) (drop (length old) cs))"
      by simp
    from "3.hyps"(1) [OF True "3.prems"(1) this]
    show ?thesis using True by simp
  next
    case False
    let ?w = "c # cs"
    let ?k = "length old"
    have H: "\<not> sublist ?m (p @ take ?k ?w)"
      using "3.prems"(2) by simp
    have "\<not> sublist ?m (p @ take (Suc ?k) ?w)"
    proof (cases "?k < length ?w")
      case True
      then have eq: "take (Suc ?k) ?w = take ?k ?w @ [?w ! ?k]"
        by (rule take_Suc_conv_app_nth)
      show ?thesis
      proof
        assume "sublist ?m (p @ take (Suc ?k) ?w)"
        then have "sublist ?m ((p @ take ?k ?w) @ [?w ! ?k])"
          using eq by simp
        then have "suffix ?m ((p @ take ?k ?w) @ [?w ! ?k])"
          using H sublist_snoc by metis
        then have suf: "suffix ?m (p @ take (Suc ?k) ?w)"
          using eq by simp
        have len: "length ?m = length (take (Suc ?k) ?w)"
          using True by simp
        from suf len have "?m = take (Suc ?k) ?w"
          by (rule suffix_same_length)
        then have "prefix ?m ?w"
          by (metis take_is_prefix)
        with False show False by simp
      qed
    next
      case False
      then have "take (Suc ?k) ?w = take ?k ?w" by simp
      with H show ?thesis by simp
    qed
    then have "\<not> sublist ?m ((p @ [c]) @ take (length ?m - 1) cs)"
      by simp
    from "3.hyps"(2) [OF \<open>\<not> prefix ?m (c # cs)\<close> "3.prems"(1) this]
    show ?thesis using \<open>\<not> prefix ?m (c # cs)\<close> by auto
  qed
qed

section \<open>Facts about \<open>_sanitize\<close>\<close>

lemma redact_append: "redact s (ms @ ns) = redact (redact s ms) ns"
  by (simp add: redact_def)

lemma sanitize_redact: "sanitize t vs = redact t (all_matches vs)"
proof (induction vs arbitrary: t)
  case Nil
  show ?case by (simp add: sanitize_def redact_def all_matches_def)
next
  case (Cons v vs)
  have "sanitize t (v # vs) = sanitize (redact t (pii_matches v)) vs"
    by (simp add: sanitize_def)
  also have "\<dots> = redact (redact t (pii_matches v)) (all_matches vs)"
    by (rule Cons.IH)
  also have "\<dots> = redact t (all_matches (v # vs))"
    by (simp add: redact_append all_matches_def)
  finally show ?case .
qed

lemma redact_length:
  "\<forall>m \<in> set ms. length redaction_marker \<le> length m \<Longrightarrow> length (redact s ms) \<le> length s"
proof (induction ms arbitrary: s)
  case Nil
  show ?case by (simp add: redact_def)
next
  case (Cons m ms)
  have "length (redact s (m # ms)) = length (redact (str_replace s m redaction_marker) ms)"
    by (simp add: redact_def)
  also have "\<dots> \<le> length (str_replace s m redaction_marker)"
    using Cons.IH Cons.prems by simp
  also have "\<dots> \<le> length s"
    using Cons.prems by (simp add: str_replace_length)
  finally show ?case .
qed

lemma redact_absent:
  "\<forall>m \<in> set ms. \<not> sublist m s \<Longrightarrow> redact s ms = s"
proof (induction ms)
  case Nil
  show ?case by (simp add: redact_def)
next
  case (Cons m ms)
  from Cons.prems have "\<not> sublist m s" by simp
  then have "m \<noteq> []" by auto
  from this \<open>\<not> sublist m s\<close> have "str_replace s m redaction_marker = s"
    by (rule str_replace_absent)
  then have "redact s (m # ms) = redact s ms"
    by (simp add: redact_def)
  with Cons show ?case by simp
qed

lemma redact_set: "set (redact s ms) \<subseteq> set s \<union> set redaction_marker"
proof (induction ms arbitrary: s)
  case Nil
  show ?case by (simp add: redact_def)
next
  case (Cons m ms)
  have "set (redact s (m # ms)) = set (redact (str_replace s m redaction_marker) ms)"
    by (simp add: redact_def)
  also have "\<dots> \<subseteq> set (str_replace s m redaction_marker) \<union> set redaction_marker"
    by (rule Cons.IH)
  also have "\<dots> \<subseteq> set s \<union> set redaction_marker"
    using str_replace_set [of s m redaction_marker] by auto
  finally show ?case .
qed

lemma redact_clears:
  "\<forall>m \<in> set ms. marker_safe m \<Longrightarrow> \<forall>m \<in> set ms. \<not> sublist m (redact s ms)"
proof (induction ms rule: rev_induct)
  case Nil
  show ?case by simp
next
  case (snoc x ms)
  let ?t = "redact s ms"
  have step: "redact s (ms @ [x]) = str_replace ?t x redaction_marker"
    by (simp add: redact_def)
  have safe_x: "marker_safe x" using snoc.prems by simp
  then have ne: "x \<noteq> []" by (simp add: marker_safe_def)
  have "length (take (length x - 1) ?t) < length x"
    using ne by (cases x) auto
  then have "\<not> sublist x ([] @ take (length x - 1) ?t)"
    using sublist_length_le [of x "take (length x - 1) ?t"] by auto
  from str_replace_removes [OF safe_x this]
  have x_gone: "\<not> sublist x (redact s (ms @ [x]))"
    using step by simp
  have "\<not> sublist m (redact s (ms @ [x]))" if "m \<in> set ms" for m
  proof -
    from that snoc have "\<not> sublist m ([] @ ?t)" and "marker_safe m" by simp_all
    from str_replace_preserves_absent [OF this(2) ne this(1)]
    show ?thesis using step by simp
  qed
  with x_gone show ?case by auto
qed

lemma redact_idempotent:
  assumes "\<forall>m \<in> set ms. marker_safe m"
  shows "redact (redact s ms) ms = redact s ms"
  using redact_clears [OF assms] by (rule redact_absent)

lemma sanitize_absent:
  "\<forall>m \<in> set (all_matches vs). \<not> sublist m t \<Longrightarrow> sanitize t vs = t"
  by (simp add: sanitize_redact redact_absent)

lemma sanitize_set: "set (sanitize t vs) \<subseteq> set t \<union> set redaction_marker"
  by (simp add: sanitize_redact redact_set)

lemma sanitize_length:
  "\<forall>m \<in> set (all_matches vs). length redaction_marker \<le> length m
   \<Longrightarrow> length (sanitize t vs) \<le> length t"
  by (simp add: sanitize_redact redact_length)

lemma sanitize_idempotent:
  "\<forall>m \<in> set (all_matches vs). marker_safe m \<Longrightarrow> sanitize (sanitize t vs) vs = sanitize t vs"
  by (simp add: sanitize_redact redact_idempotent)

lemma all_matches_email: "all_matches [email_violation ms] = ms"
  by (simp add: all_matches_def pii_matches_def email_violation_def pii_violation_def)

text \<open>\<open>_sanitize_response\<close> of a manager with an output guardrail is \<open>_sanitize\<close>.\<close>

lemma sanitize_response_with_guardrail:
  "output_guardrail m = Some og \<Longrightarrow> sanitize_response m r vs = sanitize r vs"
  by (simp add: sanitize_response_def)

section \<open>What the patterns match\<close>

lemma try_down_Some:
  "try_down n lo f = Some res \<Longrightarrow> \<exists>j. lo \<le> j \<and> j \<le> n \<and> f j = Some res"
proof (induction n)
  case 0
  then show ?case by (auto split: if_splits)
next
  case (Suc n)
  show ?case
  proof (cases "f (Suc n)")
    case None
    with Suc.prems have "try_down n lo f = Some res"
      by (auto split: if_splits)
    from Suc.IH [OF this] show ?thesis by (auto intro: le_SucI)
  next
    case (Some r)
    with Suc.prems have "\<not> Suc n < lo" "f (Suc n) = Some res"
      by (auto split: if_splits)
    then show ?thesis by (intro exI [of _ "Suc n"]) auto
  qed
qed

lemma try_up_Some:
  "try_up j n f = Some res \<Longrightarrow> \<exists>i. j \<le> i \<and> i \<le> j + n \<and> f i = Some res"
proof (induction n arbitrary: j)
  case 0
  then show ?case by auto
next
  case (Suc n)
  show ?case
  proof (cases "f j")
    case None
    with Suc.prems have "try_up (Suc j) n f = Some res" by simp
    from Suc.IH [OF this] show ?thesis by (auto intro: Suc_leD)
  next
    case (Some r)
    with Suc.prems have "f j = Some res" by simp
    then show ?thesis by (intro exI [of _ j]) auto
  qed
qed

lemma rest_advance: "rest (advance j st) = drop j (rest st)"
  by (simp add: advance_def)

lemma rx_match_consumes:
  "rx_match r st k = Some res
   \<Longrightarrow> \<exists>st' w. k st' = Some res \<and> rest st = w @ rest st' \<and> consumes r w"
proof (induction r arbitrary: st k res)
  case (Cls p)
  then obtain c cs where r: "rest st = c # cs" and p: "p c"
    and k: "k (st\<lparr>prev := Some c, rest := cs\<rparr>) = Some res"
    by (auto split: list.splits if_splits)
  show ?case
    by (rule exI [of _ "st\<lparr>prev := Some c, rest := cs\<rparr>"], rule exI [of _ "[c]"])
       (simp add: r p k)
next
  case Eps
  then show ?case by (intro exI [of _ st] exI [of _ "[]"]) simp
next
  case (Seq a b)
  from Seq.prems have "rx_match a st (\<lambda>st'. rx_match b st' k) = Some res" by simp
  from Seq.IH(1) [OF this] obtain s1 u
    where 1: "rx_match b s1 k = Some res" "rest st = u @ rest s1" "consumes a u"
    by blast
  from Seq.IH(2) [OF 1(1)] obtain s2 v
    where 2: "k s2 = Some res" "rest s1 = v @ rest s2" "consumes b v"
    by blast
  show ?case
    by (rule exI [of _ s2], rule exI [of _ "u @ v"]) (use 1 2 in auto)
next
  case (Alt a b)
  show ?case
  proof (cases "rx_match a st k")
    case None
    with Alt.prems have "rx_match b st k = Some res" by simp
    from Alt.IH(2) [OF this] show ?thesis by auto
  next
    case (Some r)
    with Alt.prems have "rx_match a st k = Some res" by simp
    from Alt.IH(1) [OF this] show ?thesis by auto
  qed
next
  case (Many p lo)
  let ?n = "length (takeWhile p (rest st))"
  from Many have "try_down ?n lo (\<lambda>j. k (advance j st)) = Some res" by simp
  from try_down_Some [OF this] obtain j
    where j: "lo \<le> j" "j \<le> ?n" "k (advance j st) = Some res"
    by blast
  have pre: "take j (rest st) = take j (takeWhile p (rest st))"
    using j(2) by (metis takeWhile_dropWhile_id append_eq_conv_conj take_append
                          diff_is_0_eq take_0 append_Nil2)
  have "list_all p (take j (rest st))"
    unfolding pre list_all_iff by (auto dest: in_set_takeD set_takeWhileD)
  moreover have "length (take j (rest st)) = j"
    using j(2) length_takeWhile_le [of p "rest st"] by simp
  ultimately show ?case
    by (intro exI [of _ "advance j st"] exI [of _ "take j (rest st)"])
       (use j in \<open>simp add: rest_advance\<close>)
next
  case Lazy_any
  then have "try_up 0 (length (rest st)) (\<lambda>j. k (advance j st)) = Some res" by simp
  from try_up_Some [OF this] obtain i where "k (advance i st) = Some res" by blast
  then show ?case
    by (intro exI [of _ "advance i st"] exI [of _ "take i (rest st)"])
       (simp add: rest_advance)
next
  case WordB
  then show ?case by (intro exI [of _ st] exI [of _ "[]"]) (auto split: if_splits)
next
  case (Ahead a)
  then show ?case by (intro exI [of _ st] exI [of _ "[]"]) (auto split: option.splits)
next
  case At_end
  then show ?case by (intro exI [of _ st] exI [of _ "[]"]) (auto split: if_splits)
next
  case (Group a)
  let ?k = "\<lambda>st'. k (st'\<lparr>cap := Some (take (length (rest st) - length (rest st')) (rest st))\<rparr>)"
  from Group.prems have "rx_match a st ?k = Some res" by simp
  from Group.IH [OF this] obtain s1 w
    where 1: "?k s1 = Some res" "rest st = w @ rest s1" "consumes a w"
    by blast
  show ?case
    by (rule exI [of _ "s1\<lparr>cap := Some (take (length (rest st) - length (rest s1)) (rest st))\<rparr>"],
        rule exI [of _ w]) (use 1 in simp)
qed

lemma match_text_consumes:
  assumes "rx_match r \<lparr>prev = p, rest = s, cap = None\<rparr> Some = Some st"
  shows "consumes r (match_text False s st)"
proof -
  from rx_match_consumes [OF assms] obtain w
    where "s = w @ rest st" "consumes r w"
    by auto
  then show ?thesis by (simp add: match_text_def)
qed

lemma findall_at_consumes:
  "m \<in> set (findall_at r grouped p s) \<Longrightarrow> \<not> grouped \<Longrightarrow> consumes r m"
proof (induction r grouped p s rule: findall_at.induct)
  case (1 r grouped p s)
  note unfold = findall_at.simps [of r grouped p s]
  show ?case
  proof (cases "rx_match r \<lparr>prev = p, rest = s, cap = None\<rparr> Some")
    case None
    with "1.prems"(1) obtain c cs where s: "s = c # cs"
      and m: "m \<in> set (findall_at r grouped (Some c) cs)"
      unfolding unfold by (auto split: list.splits)
    from "1.IH" None s m "1.prems"(2) show ?thesis by blast
  next
    case (Some st)
    from match_text_consumes [OF Some] "1.prems"(2)
    have mt: "consumes r (match_text grouped s st)" by simp
    show ?thesis
    proof (cases "length (rest st) < length s")
      case True
      with "1.prems"(1) Some
      have "m = match_text grouped s st \<or> m \<in> set (findall_at r grouped (prev st) (rest st))"
        unfolding unfold by auto
      with mt "1.IH" Some True "1.prems"(2) show ?thesis by blast
    next
      case False
      with "1.prems"(1) Some
      have "m = match_text grouped s st
            \<or> (\<exists>c cs. s = c # cs \<and> m \<in> set (findall_at r grouped (Some c) cs))"
        unfolding unfold by (auto split: list.splits)
      with mt "1.IH" Some False "1.prems"(2) show ?thesis by blast
    qed
  qed
qed

lemma findall_consumes: "m \<in> set (findall r False s) \<Longrightarrow> consumes r m"
  by (auto simp: findall_def dest: findall_at_consumes)

lemma marker_safeI:
  assumes "\<forall>c \<in> set w. c \<noteq> CHR ''['' \<and> c \<noteq> CHR '']''"
    and "c0 \<in> set w" "c0 \<notin> set ''REDACTED''"
  shows "marker_safe w"
proof -
  have "\<not> sublist w ''REDACTED''"
    using assms(2,3) set_mono_sublist [of w "''REDACTED''"] by blast
  moreover have "w \<noteq> []" using assms(2) by auto
  ultimately show ?thesis using assms(1) by (auto simp: marker_safe_def)
qed

lemma pattern_chars_no_bracket:
  "email_local c \<or> email_domain c \<or> email_tld c \<or> is_digit c \<or> c \<in> set ''-.@''
   \<Longrightarrow> c \<noteq> CHR ''['' \<and> c \<noteq> CHR '']''"
  by (auto simp: email_local_def email_domain_def email_tld_def is_alpha_def is_digit_def
                 upper_letters_def lower_letters_def digit_chars_def)

lemma digit_not_in_marker: "is_digit c \<Longrightarrow> c \<notin> set ''REDACTED''"
  by (auto simp: is_digit_def digit_chars_def)

lemma email_match_safe:
  assumes "consumes email_pattern w"
  shows "marker_safe w"
proof -
  from assms obtain u1 u2 u3 where w: "w = u1 @ CHR ''@'' # u2 @ CHR ''.'' # u3"
    and c: "list_all email_local u1" "list_all email_domain u2" "list_all email_tld u3"
    by (auto simp: email_pattern_def chr_def)
  have "\<forall>c \<in> set w. c \<noteq> CHR ''['' \<and> c \<noteq> CHR '']''"
    using c pattern_chars_no_bracket unfolding w list_all_iff by auto
  moreover have "CHR ''@'' \<in> set w" by (simp add: w)
  moreover have "CHR ''@'' \<notin> set ''REDACTED''" by simp
  ultimately show ?thesis by (rule marker_safeI)
qed

lemma consumes_digit: "consumes digit w \<Longrightarrow> \<exists>c. w = [c] \<and> is_digit c"
  by (simp add: digit_def)

lemma consumes_dash_or_dot: "consumes dash_or_dot w \<Longrightarrow> set w \<subseteq> set ''-.''"
  by (auto simp: dash_or_dot_def opt_def)

lemma phone_match_safe:
  assumes "consumes phone_pattern w"
  shows "marker_safe w"
proof -
  from assms have "w \<noteq> [] \<and> is_digit (hd w) \<and> (\<forall>c \<in> set w. is_digit c \<or> c \<in> set ''-.'')"
    by (auto simp: phone_pattern_def dest!: consumes_digit consumes_dash_or_dot)
  then have ne: "w \<noteq> []" and d: "is_digit (hd w)"
    and all: "\<forall>c \<in> set w. is_digit c \<or> c \<in> set ''-.''"
    by simp_all
  have "\<forall>c \<in> set w. c \<noteq> CHR ''['' \<and> c \<noteq> CHR '']''"
    using all pattern_chars_no_bracket by auto
  moreover have "hd w \<in> set w" using ne by simp
  moreover have "hd w \<notin> set ''REDACTED''" using d by (rule digit_not_in_marker)
  ultimately show ?thesis by (rule marker_safeI)
qed

lemma ssn_match_safe:
  assumes "consumes ssn_pattern w"
  shows "marker_safe w"
proof -
  from assms have "w \<noteq> [] \<and> is_digit (hd w) \<and> (\<forall>c \<in> set w. is_digit c \<or> c \<in> set ''-.'')"
    by (auto simp: ssn_pattern_def chr_def dest!: consumes_digit)
  then have ne: "w \<noteq> []" and d: "is_digit (hd w)"
    and all: "\<forall>c \<in> set w. is_digit c \<or> c \<in> set ''-.''"
    by simp_all
  have "\<forall>c \<in> set w. c \<noteq> CHR ''['' \<and> c \<noteq> CHR '']''"
    using all pattern_chars_no_bracket by auto
  moreover have "hd w \<in> set w" using ne by simp
  moreover have "hd w \<notin> set ''REDACTED''" using d by (rule digit_not_in_marker)
  ultimately show ?thesis by (rule marker_safeI)
qed

lemma pattern_match_safe:
  assumes "(ty, pat) \<in> set patterns" "m \<in> set (findall pat False s)"
  shows "marker_safe m"
proof -
  from assms(2) have "consumes pat m" by (rule findall_consumes)
  with assms(1) show ?thesis
    by (auto simp: patterns_def
             intro: email_match_safe phone_match_safe ssn_match_safe)
qed

lemma pii_matches_pii_violation: "pii_matches (pii_violation ty why sev ms) = ms"
  by (simp add: pii_matches_def pii_violation_def)

lemma pii_matches_mk_violation: "pii_matches (mk_violation a b c d) = []"
  by (simp add: pii_matches_def mk_violation_def)

lemma check_pii_matches_safe:
  "v \<in> set (check_pii r) \<Longrightarrow> m \<in> set (pii_matches v) \<Longrightarrow> marker_safe m"
  by (auto simp: check_pii_def Let_def pii_matches_pii_violation
           split: if_splits dest: pattern_match_safe)

lemma check_citation_pii_matches_safe:
  "v \<in> set (check_citation_pii c) \<Longrightarrow> m \<in> set (pii_matches v) \<Longrightarrow> marker_safe m"
  by (auto simp: check_citation_pii_def Let_def pii_matches_pii_violation
           split: if_splits dest: pattern_match_safe)

lemma guard_violations_no_matches:
  "v \<in> set (fst (output_guard_part g r)) \<Longrightarrow> pii_matches v = []"
  by (auto simp: output_guard_part_def output_error_violation_def Let_def
                 pii_matches_mk_violation
           split: option.splits guard_outcome.splits if_splits)

lemma harmful_no_matches: "v \<in> set (check_harmful_content r) \<Longrightarrow> pii_matches v = []"
  by (auto simp: check_harmful_content_def pii_matches_mk_violation split: if_splits)

text \<open>Every match \<open>OutputGuardrail.validate\<close> reports is safe for the marker.\<close>

lemma output_validate_matches_safe:
  assumes "m \<in> set (all_matches (violations (output_validate og r)))"
  shows "marker_safe m"
proof -
  from assms obtain v where v: "v \<in> set (violations (output_validate og r))"
    and m: "m \<in> set (pii_matches v)"
    by (auto simp: all_matches_def)
  from v have "v \<in> set (fst (output_guard_part (output_guard og) r))
               \<or> v \<in> set (check_pii r)
               \<or> v \<in> set (check_citation_pii (extract_citation_sections r))
               \<or> v \<in> set (check_harmful_content r)"
    by (cases "output_guard_part (output_guard og) r")
       (auto simp: output_validate_def Let_def check_bias_def split: if_splits)
  with m show ?thesis
    using guard_violations_no_matches [of v] harmful_no_matches [of v]
          check_pii_matches_safe [of v r m] check_citation_pii_matches_safe [of v _ m]
    by auto
qed

lemma sanitize_idempotent_on_findings:
  "sanitize (sanitize t (violations (output_validate og r))) (violations (output_validate og r))
   = sanitize t (violations (output_validate og r))"
  by (rule sanitize_idempotent) (auto dest: output_validate_matches_safe)

section \<open>Sanitization\<close>

text \<open>
  C5, as the code has it: \<open>_sanitize\<close> does nothing but replace, match after match,
  the occurrences of the PII matches of the violations by the marker \<open>[REDACTED]\<close>
  (violations of other validators change nothing). So it returns the text unchanged
  when none of these matches occurs in it, and it adds no character that is not in the
  marker. The result is no longer than the text when every PII match is at least as
  long as the marker (ten characters).
\<close>

theorem sanitize_preserves_content:
  "sanitize t vs
     = foldl (\<lambda>sanitized m. str_replace sanitized m redaction_marker) t (all_matches vs)
   \<and> ((\<forall>m \<in> set (all_matches vs). \<not> sublist m t) \<longrightarrow> sanitize t vs = t)
   \<and> set (sanitize t vs) \<subseteq> set t \<union> set redaction_marker
   \<and> ((\<forall>m \<in> set (all_matches vs). length redaction_marker \<le> length m)
        \<longrightarrow> length (sanitize t vs) \<le> length t)"
  using sanitize_redact [of t vs, unfolded redact_def]
        sanitize_absent [of vs t] sanitize_set [of t vs] sanitize_length [of vs t]
  by blast

theorem sanitize_preserves_content_witness:
  "\<not> sublist ''jane@example.com'' ''No address here''
   \<and> sanitize ''No address here'' [email_violation [''jane@example.com'']] = ''No address here''
   \<and> length redaction_marker \<le> length ''jane@example.com''
   \<and> length (sanitize ''Contact: jane@example.com'' [email_violation [''jane@example.com'']])
       \<le> length ''Contact: jane@example.com''"
proof -
  have absent: "\<not> sublist ''jane@example.com'' ''No address here''"
    by code_simp
  have long: "length redaction_marker \<le> length ''jane@example.com''"
    by (simp add: redaction_marker_def)
  from sanitize_preserves_content
         [of "''No address here''" "[email_violation [''jane@example.com'']]"] absent
  have 1: "sanitize ''No address here'' [email_violation [''jane@example.com'']] = ''No address here''"
    by (simp add: all_matches_email)
  from sanitize_preserves_content
         [of "''Contact: jane@example.com''" "[email_violation [''jane@example.com'']]"] long
  have 2: "length (sanitize ''Contact: jane@example.com'' [email_violation [''jane@example.com'']])
       \<le> length ''Contact: jane@example.com''"
    by (simp add: all_matches_email)
  from absent 1 long 2 show ?thesis by blast
qed

text \<open>
  C5 as stated fails: the address \<open>a@b.co\<close>, which the e-mail pattern of \<open>_check_pii\<close>
  finds, has six characters and is replaced by the ten of the marker.
\<close>

theorem sanitize_longer_counterexample:
  "check_pii ''a@b.co'' = [email_violation [''a@b.co'']]
   \<and> sanitize ''a@b.co'' (check_pii ''a@b.co'') = ''[REDACTED]''
   \<and> length ''a@b.co'' < length (sanitize ''a@b.co'' (check_pii ''a@b.co''))"
proof -
  have 1: "check_pii ''a@b.co'' = [email_violation [''a@b.co'']]"
    by code_simp
  have 2: "sanitize ''a@b.co'' [email_violation [''a@b.co'']] = ''[REDACTED]''"
    by code_simp
  from 1 2 show ?thesis by simp
qed

text \<open>
  C8, as the code has it: sanitizing twice with the same violations gives what
  sanitizing once gives, when every PII match is not empty, has no square bracket and
  is not a part of the word \<open>REDACTED\<close>. The matches that
  \<open>OutputGuardrail.validate\<close> reports are of this kind, so this holds for the
  violations found in any response.
\<close>

theorem sanitize_idempotent_safe_matches:
  "((\<forall>m \<in> set (all_matches vs). marker_safe m)
      \<longrightarrow> sanitize (sanitize t vs) vs = sanitize t vs)
   \<and> sanitize (sanitize t (violations (output_validate og r)))
         (violations (output_validate og r))
       = sanitize t (violations (output_validate og r))"
  using sanitize_idempotent [of vs t] sanitize_idempotent_on_findings [of t og r]
  by blast

theorem sanitize_idempotent_safe_matches_witness:
  "marker_safe ''jane@example.com''
   \<and> sanitize (sanitize ''Contact: jane@example.com'' [email_violation [''jane@example.com'']])
        [email_violation [''jane@example.com'']]
     = sanitize ''Contact: jane@example.com'' [email_violation [''jane@example.com'']]"
proof -
  have safe: "marker_safe ''jane@example.com''"
    by code_simp
  from sanitize_idempotent_safe_matches
         [of "[email_violation [''jane@example.com'']]" "''Contact: jane@example.com''"] safe
  show ?thesis by (simp add: all_matches_email)
qed

text \<open>
  C8 as stated fails: a match that is a part of the marker comes back with every
  replacement.
\<close>

theorem sanitize_not_idempotent_counterexample:
  "sanitize ''Contact ED'' [name_violation [''ED'']] = ''Contact [REDACTED]''
   \<and> sanitize (sanitize ''Contact ED'' [name_violation [''ED'']]) [name_violation [''ED'']]
       = ''Contact [R[REDACTED]ACT[REDACTED]]''
   \<and> sanitize (sanitize ''Contact ED'' [name_violation [''ED'']]) [name_violation [''ED'']]
       \<noteq> sanitize ''Contact ED'' [name_violation [''ED'']]"
  by code_simp

section \<open>Facts about the guardrails\<close>

lemma output_valid: "valid (output_validate og r) = (violations (output_validate og r) = [])"
  by (simp add: output_validate_def Let_def split: prod.splits)

lemma output_sanitized_str:
  "violations (output_validate og r) \<noteq> []
   \<Longrightarrow> sanitized (output_validate og r) = PStr (sanitize r (violations (output_validate og r)))"
  by (cases "output_guard_part (output_guard og) r")
     (auto simp: output_validate_def Let_def split: if_splits)

lemma input_valid: "valid (input_validate ig q) = (violations (input_validate ig q) = [])"
  by (simp add: input_validate_def Let_def split: prod.splits)

lemma input_sanitized_no_guard:
  "input_guard ig = None \<Longrightarrow> sanitized (input_validate ig q) = PStr q"
  by (simp add: input_validate_def input_guard_part_def Let_def)

lemma input_no_violation_long:
  "violations (input_validate ig q) = [] \<Longrightarrow> 5 \<le> length q"
  by (auto simp: input_validate_def Let_def split: prod.splits if_splits)


lemma check_pii_high: "v \<in> set (check_pii r) \<Longrightarrow> severity_order v = 3"
  by (auto simp: check_pii_def patterns_def Let_def pii_violation_def severity_order_def
           split: if_splits)

lemma check_citation_pii_medium: "v \<in> set (check_citation_pii c) \<Longrightarrow> severity_order v = 2"
  by (auto simp: check_citation_pii_def patterns_def Let_def pii_violation_def severity_order_def
           split: if_splits)

lemma check_harmful_content_medium:
  "v \<in> set (check_harmful_content r) \<Longrightarrow> severity_order v = 2"
  by (auto simp: check_harmful_content_def mk_violation_def severity_order_def
           split: if_splits)


lemma output_validate_quiet:
  assumes "fst (output_guard_part (output_guard og) r) = []"
    and "check_pii r = []"
    and "check_citation_pii (extract_citation_sections r) = []"
    and "check_harmful_content r = []"
  shows "violations (output_validate og r) = []"
  using assms
  by (cases "output_guard_part (output_guard og) r")
     (auto simp: output_validate_def Let_def check_bias_def)

lemma no_guard_no_violation: "fst (output_guard_part None r) = []"
  by (simp add: output_guard_part_def)

text \<open>An error of \<open>DetectPII\<close> that the citation filter recognises gives no violation.\<close>

lemma suppressed_error_gives_no_violation:
  "error_validator_name e = ''DetectPII'' \<Longrightarrow> is_citation_false_positive (error_msg e) r
   \<Longrightarrow> output_error_violation r e = []"
  by (simp add: output_error_violation_def Let_def)

section \<open>Strategy selection\<close>

lemma max_by_snoc:
  "max_by key x (xs @ [y]) =
     (if key (max_by key x xs) < key y then y else max_by key x xs)"
  by (simp add: max_by_def)

lemma max_by_decomp:
  "\<exists>pre post. x # xs = pre @ max_by key x xs # post
     \<and> (\<forall>u \<in> set pre. key u < key (max_by key x xs))
     \<and> (\<forall>u \<in> set post. key u \<le> key (max_by key x xs))"
proof (induction xs rule: rev_induct)
  case Nil
  have "x # [] = [] @ max_by key x [] # []" by (simp add: max_by_def)
  then show ?case by force
next
  case (snoc y xs)
  then obtain pre post where d: "x # xs = pre @ max_by key x xs # post"
    and lo: "\<forall>u \<in> set pre. key u < key (max_by key x xs)"
    and hi: "\<forall>u \<in> set post. key u \<le> key (max_by key x xs)"
    by blast
  show ?case
  proof (cases "key (max_by key x xs) < key y")
    case True
    then have m: "max_by key x (xs @ [y]) = y" by (simp add: max_by_snoc)
    have "x # xs @ [y] = (pre @ max_by key x xs # post) @ y # []"
      using d by simp
    moreover have "\<forall>u \<in> set (pre @ max_by key x xs # post). key u < key y"
      using lo hi True by auto
    ultimately show ?thesis unfolding m by (metis empty_iff list.set(1))
  next
    case False
    then have m: "max_by key x (xs @ [y]) = max_by key x xs" by (simp add: max_by_snoc)
    have "x # xs @ [y] = pre @ max_by key x xs # (post @ [y])"
      using d by simp
    moreover have "\<forall>u \<in> set (post @ [y]). key u \<le> key (max_by key x xs)"
      using hi False by auto
    ultimately show ?thesis unfolding m using lo by blast
  qed
qed

lemma first_max_filter:
  fixes key :: "'a \<Rightarrow> nat"
  assumes "vs = pre @ v # post"
    and "\<forall>u \<in> set pre. key u < key v"
  shows "filter (\<lambda>u. key u = key v) vs = v # filter (\<lambda>u. key u = key v) post"
  using assms by (auto simp: filter_empty_conv)

lemma max_by_determined:
  assumes "filter (\<lambda>u. key u = k) (y # ys) = filter (\<lambda>u. key u = k) (x # xs)"
    and "key (max_by key x xs) = k"
    and "\<forall>u \<in> set (y # ys). key u \<le> k"
  shows "max_by key y ys = max_by key x xs"
proof -
  obtain pre post where d: "x # xs = pre @ max_by key x xs # post"
    and lo: "\<forall>u \<in> set pre. key u < key (max_by key x xs)"
    using max_by_decomp [of x xs key] by blast
  have fx: "filter (\<lambda>u. key u = k) (x # xs)
            = max_by key x xs # filter (\<lambda>u. key u = k) post"
    using first_max_filter [OF d lo] assms(2) by simp
  obtain pre' post' where d': "y # ys = pre' @ max_by key y ys # post'"
    and lo': "\<forall>u \<in> set pre'. key u < key (max_by key y ys)"
    and hi': "\<forall>u \<in> set post'. key u \<le> key (max_by key y ys)"
    using max_by_decomp [of y ys key] by blast
  have "max_by key x xs \<in> set (filter (\<lambda>u. key u = k) (y # ys))"
    using fx assms(1) by simp
  then have mem: "max_by key x xs \<in> set (y # ys)"
    by (metis filter_is_subset subsetD)
  have "key (max_by key x xs) \<le> key (max_by key y ys)"
    using mem lo' hi' unfolding d' by (auto simp: less_imp_le)
  moreover have "key (max_by key y ys) \<le> k"
    using assms(3) d' by (metis in_set_conv_decomp)
  ultimately have ky: "key (max_by key y ys) = k"
    using assms(2) by simp
  have "filter (\<lambda>u. key u = k) (y # ys)
        = max_by key y ys # filter (\<lambda>u. key u = k) post'"
    using first_max_filter [OF d' lo'] ky by simp
  with fx assms(1) show ?thesis by simp
qed

lemma max_by_first:
  "\<forall>u \<in> set xs. key u \<le> key x \<Longrightarrow> max_by key x xs = x"
  unfolding max_by_def by (induction xs) auto

lemma severity_order_values:
  "severity_order (v\<lparr>severity := Some ''low''\<rparr>) = 1"
  "severity_order (v\<lparr>severity := Some ''medium''\<rparr>) = 2"
  "severity_order (v\<lparr>severity := Some ''high''\<rparr>) = 3"
  "severity_order (v\<lparr>severity := None\<rparr>) = 1"
  by (simp_all add: severity_order_def)

lemma apply_strategy_highest:
  "vs \<noteq> [] \<Longrightarrow> apply_strategy m vs content dir
     = strategy_for m (highest_severity_violation vs) content dir"
  by (cases vs) simp_all

lemma highest_decomp:
  assumes "vs \<noteq> []"
  shows "\<exists>pre post. vs = pre @ highest_severity_violation vs # post
     \<and> (\<forall>u \<in> set pre. severity_order u < severity_order (highest_severity_violation vs))
     \<and> (\<forall>u \<in> set post. severity_order u \<le> severity_order (highest_severity_violation vs))"
proof -
  from assms obtain x xs where vs: "vs = x # xs" by (cases vs) auto
  from max_by_decomp [of x xs severity_order] show ?thesis
    by (simp add: vs highest_severity_violation_def)
qed

lemma highest_determined:
  assumes "vs \<noteq> []" "ws \<noteq> []"
    and "\<forall>u \<in> set ws. severity_order u \<le> severity_order (highest_severity_violation vs)"
    and "filter (\<lambda>u. severity_order u = severity_order (highest_severity_violation vs)) ws
         = filter (\<lambda>u. severity_order u = severity_order (highest_severity_violation vs)) vs"
  shows "highest_severity_violation ws = highest_severity_violation vs"
proof -
  from assms(1) obtain x xs where vs: "vs = x # xs" by (cases vs) auto
  from assms(2) obtain y ys where ws: "ws = y # ys" by (cases ws) auto
  have k: "severity_order (max_by severity_order x xs)
           = severity_order (highest_severity_violation vs)"
    by (simp add: vs highest_severity_violation_def)
  from max_by_determined [of severity_order _ y ys x xs, OF _ k] assms(3,4)
  show ?thesis
    by (simp add: vs ws highest_severity_violation_def)
qed

text \<open>
  Without an external guard the first violation of \<open>OutputGuardrail.validate\<close> is
  the most severe one: the PII findings in the text come first and are the only ones
  of severity \<open>high\<close>.
\<close>

lemma first_is_highest_without_guard:
  assumes "output_guard og = None" "violations (output_validate og r) \<noteq> []"
  shows "highest_severity_violation (violations (output_validate og r))
         = hd (violations (output_validate og r))"
proof -
  let ?c = "if extract_citation_sections r \<noteq> []
            then check_citation_pii (extract_citation_sections r) else []"
  let ?vs = "check_pii r @ ?c @ check_harmful_content r"
  have vs: "violations (output_validate og r) = ?vs"
    using assms(1)
    by (simp add: output_validate_def output_guard_part_def Let_def check_bias_def)
  have med: "severity_order v = 2" if "v \<in> set (?c @ check_harmful_content r)" for v
    using that check_citation_pii_medium check_harmful_content_medium
    by (auto split: if_splits)
  have "\<forall>u \<in> set (tl ?vs). severity_order u \<le> severity_order (hd ?vs)"
  proof (cases "check_pii r")
    case Nil
    then have "hd ?vs \<in> set (?c @ check_harmful_content r)"
      using assms(2) vs by (metis append_Nil hd_in_set)
    then have "severity_order (hd ?vs) = 2" by (rule med)
    moreover have "severity_order u = 2" if "u \<in> set (tl ?vs)" for u
    proof -
      from that have "u \<in> set ?vs" by (metis list.set_sel(2) tl_Nil)
      with Nil show ?thesis using med by simp
    qed
    ultimately show ?thesis by simp
  next
    case (Cons p ps)
    then have "p \<in> set (check_pii r)" by simp
    then have "severity_order p = 3" by (rule check_pii_high)
    moreover have "severity_order u \<le> 3" if "u \<in> set (tl ?vs)" for u
    proof -
      from that have "u \<in> set ?vs" by (metis list.set_sel(2) tl_Nil)
      then have "u \<in> set (check_pii r) \<or> u \<in> set (?c @ check_harmful_content r)"
        by auto
      then show ?thesis using check_pii_high [of u r] med [of u] by auto
    qed
    ultimately show ?thesis using Cons by simp
  qed
  then show ?thesis
    unfolding vs highest_severity_violation_def by (rule max_by_first)
qed

text \<open>
  C1: for a non-empty violation list, \<open>_apply_strategy\<close> resolves the strategy for the
  first violation of the highest severity (every violation before it is strictly less
  severe, none after it is more severe, in the order \<open>low < medium < high\<close>). Hence
  any other non-empty list with the same violations of that severity in the same order,
  and none more severe, gets the same result: lower-severity violations may be
  reordered or duplicated.
\<close>

theorem strategy_of_first_highest_violation:
  assumes "vs \<noteq> []"
  shows "(\<exists>pre post. vs = pre @ highest_severity_violation vs # post
            \<and> (\<forall>u \<in> set pre. severity_order u < severity_order (highest_severity_violation vs))
            \<and> (\<forall>u \<in> set post. severity_order u \<le> severity_order (highest_severity_violation vs)))
       \<and> apply_strategy m vs content dir
           = strategy_for m (highest_severity_violation vs) content dir
       \<and> (\<forall>ws. ws \<noteq> []
             \<and> (\<forall>u \<in> set ws. severity_order u \<le> severity_order (highest_severity_violation vs))
             \<and> filter (\<lambda>u. severity_order u = severity_order (highest_severity_violation vs)) ws
                 = filter (\<lambda>u. severity_order u = severity_order (highest_severity_violation vs)) vs
             \<longrightarrow> apply_strategy m ws content dir = apply_strategy m vs content dir)"
proof (intro conjI allI impI)
  show "\<exists>pre post. vs = pre @ highest_severity_violation vs # post
            \<and> (\<forall>u \<in> set pre. severity_order u < severity_order (highest_severity_violation vs))
            \<and> (\<forall>u \<in> set post. severity_order u \<le> severity_order (highest_severity_violation vs))"
    using assms by (rule highest_decomp)
  show "apply_strategy m vs content dir
           = strategy_for m (highest_severity_violation vs) content dir"
    using assms by (rule apply_strategy_highest)
next
  fix ws
  assume a: "ws \<noteq> []
             \<and> (\<forall>u \<in> set ws. severity_order u \<le> severity_order (highest_severity_violation vs))
             \<and> filter (\<lambda>u. severity_order u = severity_order (highest_severity_violation vs)) ws
                 = filter (\<lambda>u. severity_order u = severity_order (highest_severity_violation vs)) vs"
  then have "highest_severity_violation ws = highest_severity_violation vs"
    using highest_determined [OF assms, of ws] by blast
  with a assms show "apply_strategy m ws content dir = apply_strategy m vs content dir"
    by (simp add: apply_strategy_highest)
qed

lemma example_highest:
  "highest_severity_violation
     [harmful_violation ''violent'', email_violation [''a@b.co''], short_query_violation,
      email_violation [''c@d.org'']]
   = email_violation [''a@b.co'']"
  by code_simp

lemma example_reordered:
  "(\<forall>u \<in> set [short_query_violation, short_query_violation, harmful_violation ''violent'',
               email_violation [''a@b.co''], email_violation [''c@d.org''],
               harmful_violation ''violent''].
      severity_order u \<le> severity_order (email_violation [''a@b.co'']))
   \<and> filter (\<lambda>u. severity_order u = severity_order (email_violation [''a@b.co'']))
        [short_query_violation, short_query_violation, harmful_violation ''violent'',
         email_violation [''a@b.co''], email_violation [''c@d.org''],
         harmful_violation ''violent'']
     = filter (\<lambda>u. severity_order u = severity_order (email_violation [''a@b.co'']))
        [harmful_violation ''violent'', email_violation [''a@b.co''], short_query_violation,
         email_violation [''c@d.org'']]"
  by code_simp

theorem strategy_of_first_highest_violation_witness:
  "[harmful_violation ''violent'', email_violation [''a@b.co''], short_query_violation,
    email_violation [''c@d.org'']] \<noteq> []
   \<and> apply_strategy redirect_manager
        [harmful_violation ''violent'', email_violation [''a@b.co''], short_query_violation,
         email_violation [''c@d.org'']] ''Mail a@b.co or c@d.org'' Output
     = strategy_for redirect_manager (email_violation [''a@b.co''])
         ''Mail a@b.co or c@d.org'' Output
   \<and> apply_strategy redirect_manager
        [short_query_violation, short_query_violation, harmful_violation ''violent'',
         email_violation [''a@b.co''], email_violation [''c@d.org''],
         harmful_violation ''violent''] ''Mail a@b.co or c@d.org'' Output
     = apply_strategy redirect_manager
        [harmful_violation ''violent'', email_violation [''a@b.co''], short_query_violation,
         email_violation [''c@d.org'']] ''Mail a@b.co or c@d.org'' Output"
proof -
  let ?vs = "[harmful_violation ''violent'', email_violation [''a@b.co''],
              short_query_violation, email_violation [''c@d.org'']]"
  let ?ws = "[short_query_violation, short_query_violation, harmful_violation ''violent'',
              email_violation [''a@b.co''], email_violation [''c@d.org''],
              harmful_violation ''violent'']"
  have ne: "?vs \<noteq> []" by simp
  have ne': "?ws \<noteq> []" by simp
  note main = strategy_of_first_highest_violation
                [OF ne, of redirect_manager "''Mail a@b.co or c@d.org''" Output,
                 unfolded example_highest]
  from main have 1: "apply_strategy redirect_manager ?vs ''Mail a@b.co or c@d.org'' Output
     = strategy_for redirect_manager (email_violation [''a@b.co''])
         ''Mail a@b.co or c@d.org'' Output"
    by blast
  from main have "?ws \<noteq> []
             \<and> (\<forall>u \<in> set ?ws. severity_order u \<le> severity_order (email_violation [''a@b.co'']))
             \<and> filter (\<lambda>u. severity_order u = severity_order (email_violation [''a@b.co''])) ?ws
                 = filter (\<lambda>u. severity_order u = severity_order (email_violation [''a@b.co''])) ?vs
             \<longrightarrow> apply_strategy redirect_manager ?ws ''Mail a@b.co or c@d.org'' Output
                 = apply_strategy redirect_manager ?vs ''Mail a@b.co or c@d.org'' Output"
    by blast
  with ne' example_reordered
  have 2: "apply_strategy redirect_manager ?ws ''Mail a@b.co or c@d.org'' Output
                 = apply_strategy redirect_manager ?vs ''Mail a@b.co or c@d.org'' Output"
    by blast
  from ne 1 2 show ?thesis by blast
qed

section \<open>Facts about the checks\<close>

lemma check_input_clean:
  assumes "enabled m" "input_guardrail m = Some ig" "violations (input_validate ig q) = []"
  shows "check_input_safety m now q =
           Inr (m, \<lparr>safe = True, found = Some [],
                    sanitized_query = (if truthy (sanitized (input_validate ig q))
                                       then Some (sanitized (input_validate ig q)) else None),
                    message = None, response = None\<rparr>)"
  using assms by (simp add: check_input_safety_def Let_def input_valid)

lemma check_output_clean:
  assumes "enabled m" "output_guardrail m = Some og" "violations (output_validate og r) = []"
  shows "check_output_safety m now r =
           Inr (m, \<lparr>safe = True, found = Some [], sanitized_query = None, message = None,
                    response = Some (PStr r)\<rparr>)"
  using assms by (simp add: check_output_safety_def Let_def output_valid)

lemma check_input_other_action:
  assumes "enabled m" "input_guardrail m = Some ig"
    and "violations (input_validate ig q) \<noteq> []"
    and "action (apply_strategy m (violations (input_validate ig q)) q Input) \<noteq> PStr ''refuse''"
    and "action (apply_strategy m (violations (input_validate ig q)) q Input) \<noteq> PStr ''sanitize''"
    and "action (apply_strategy m (violations (input_validate ig q)) q Input) \<noteq> PStr ''redirect''"
  shows "check_input_safety m now q =
           Inr (if log_events m
                then log_safety_event m now Input q (violations (input_validate ig q)) False
                else m,
                \<lparr>safe = False, found = Some (violations (input_validate ig q)),
                 sanitized_query = (if truthy (sanitized (input_validate ig q))
                                    then Some (sanitized (input_validate ig q)) else None),
                 message =
                   (if truthy (strategy_message
                                 (apply_strategy m (violations (input_validate ig q)) q Input))
                    then Some (strategy_message
                                 (apply_strategy m (violations (input_validate ig q)) q Input))
                    else None),
                 response = None\<rparr>)"
  using assms by (simp add: check_input_safety_def Let_def input_valid)

lemma check_output_other_action:
  assumes "enabled m" "output_guardrail m = Some og"
    and "violations (output_validate og r) \<noteq> []"
    and "action (apply_strategy m (violations (output_validate og r)) r Output) \<noteq> PStr ''refuse''"
    and "action (apply_strategy m (violations (output_validate og r)) r Output) \<noteq> PStr ''sanitize''"
  shows "check_output_safety m now r =
           Inr (if log_events m
                then log_safety_event m now Output r (violations (output_validate og r)) False
                else m,
                \<lparr>safe = False, found = Some (violations (output_validate og r)),
                 sanitized_query = None, message = None, response = Some (PStr r)\<rparr>)"
  using assms by (simp add: check_output_safety_def Let_def output_valid)

lemma check_input_refusing:
  assumes "enabled m" "input_guardrail m = Some ig"
    and "violations (input_validate ig q) \<noteq> []"
    and "action (apply_strategy m (violations (input_validate ig q)) q Input) = PStr ''refuse''
         \<or> action (apply_strategy m (violations (input_validate ig q)) q Input) = PStr ''redirect''"
  shows "check_input_safety m now q =
           Inr (if log_events m
                then log_safety_event m now Input q (violations (input_validate ig q)) False
                else m,
                \<lparr>safe = False, found = Some (violations (input_validate ig q)),
                 sanitized_query = None,
                 message =
                   (if truthy (strategy_message
                                 (apply_strategy m (violations (input_validate ig q)) q Input))
                    then Some (strategy_message
                                 (apply_strategy m (violations (input_validate ig q)) q Input))
                    else None),
                 response = None\<rparr>)"
  using assms by (auto simp add: check_input_safety_def Let_def input_valid)


lemma sanitize_strategy_content:
  assumes "output_guardrail m = Some og" "violations (output_validate og r) \<noteq> []"
    and "action (apply_strategy m (violations (output_validate og r)) r Output) = PStr ''sanitize''"
  shows "sanitized_content (apply_strategy m (violations (output_validate og r)) r Output)
         = Some (PStr (sanitize r (violations (output_validate og r))))"
proof -
  let ?vs = "violations (output_validate og r)"
  have "apply_strategy m ?vs r Output = strategy_for m (highest_severity_violation ?vs) r Output"
    using assms(2) by (rule apply_strategy_highest)
  moreover from this assms(3)
  have "action (strategy_for m (highest_severity_violation ?vs) r Output) = PStr ''sanitize''"
    by simp
  ultimately show ?thesis
    using assms(1) output_sanitized_str [OF assms(2)]
    by (simp add: strategy_for_def Let_def)
qed

lemma check_output_sanitize:
  assumes "enabled m" "output_guardrail m = Some og"
    and "violations (output_validate og r) \<noteq> []"
    and "action (apply_strategy m (violations (output_validate og r)) r Output) = PStr ''sanitize''"
  shows "check_output_safety m now r =
           Inr (if log_events m
                then log_safety_event m now Output r (violations (output_validate og r)) False
                else m,
                \<lparr>safe = False, found = Some (violations (output_validate og r)),
                 sanitized_query = None, message = None,
                 response = Some
                   (let final_response = sanitize r (violations (output_validate og r));
                        first_strategy =
                          get_response_strategy m
                            (case validator (hd (violations (output_validate og r))) of
                               Some v \<Rightarrow> v | None \<Rightarrow> []) Output
                    in if 2 * length final_response < length r
                          \<and> truthy (dict_get first_strategy ''fallback_to_refuse'' (PBool False))
                       then dict_get first_strategy ''message''
                              (dict_get (on_violation m) ''message'' (PStr output_refusal))
                       else PStr final_response)\<rparr>)"
  using assms sanitize_strategy_content [OF assms(2,3,4)]
  by (simp add: check_output_safety_def Let_def output_valid)


text \<open>Whatever a check does, it leaves the log as it was or appends one unsafe event.\<close>

lemma check_input_log:
  assumes "check_input_safety m now q = Inr (m', res)"
  shows "safety_events m' = safety_events m
         \<or> (\<exists>e. \<not> event_safe e \<and> safety_events m' = safety_events m @ [e])"
  using assms
  by (auto simp: check_input_safety_def Let_def log_safety_event_def
           split: option.splits if_splits prod.splits)

lemma check_output_log:
  assumes "check_output_safety m now r = Inr (m', res)"
  shows "safety_events m' = safety_events m
         \<or> (\<exists>e. \<not> event_safe e \<and> safety_events m' = safety_events m @ [e])"
  using assms
  by (auto simp: check_output_safety_def Let_def log_safety_event_def
           split: option.splits if_splits prod.splits sum.splits)

lemma default_manager_parts:
  "enabled default_manager"
  "log_events default_manager"
  "input_guardrail default_manager = Some fallback_input_guardrail"
  "output_guardrail default_manager = Some fallback_output_guardrail"
  "input_guard fallback_input_guardrail = None"
  by (simp_all add: default_manager_def fallback_input_guardrail_def)

lemma allow_manager_parts:
  "enabled allow_manager"
  "log_events allow_manager"
  "input_guardrail allow_manager = Some fallback_input_guardrail"
  "output_guardrail allow_manager = Some fallback_output_guardrail"
  by (simp_all add: allow_manager_def default_manager_def)

lemma redirect_manager_parts:
  "enabled redirect_manager"
  "log_events redirect_manager"
  "input_guardrail redirect_manager = Some fallback_input_guardrail"
  "output_guardrail redirect_manager = Some fallback_output_guardrail"
  by (simp_all add: redirect_manager_def default_manager_def)

lemma fallback_manager_parts:
  "enabled fallback_manager"
  "log_events fallback_manager"
  "output_guardrail fallback_manager = Some bias_output_guardrail"
  by (simp_all add: fallback_manager_def default_manager_def)

section \<open>The disabled manager\<close>

text \<open>
  C9: when the manager is disabled or the guardrail of the direction is absent,
  \<open>check_input_safety\<close> returns \<open>{"safe": True}\<close> and \<open>check_output_safety\<close> returns
  \<open>{"safe": True, "response": response}\<close> with the response it was given; neither
  raises, and the manager is left as it was.
\<close>

theorem disabled_manager_passes_through:
  "(\<not> enabled m \<or> input_guardrail m = None \<longrightarrow>
      check_input_safety m now query =
        Inr (m, \<lparr>safe = True, found = None, sanitized_query = None, message = None,
                 response = None\<rparr>))
   \<and> (\<not> enabled m \<or> output_guardrail m = None \<longrightarrow>
      check_output_safety m now resp =
        Inr (m, \<lparr>safe = True, found = None, sanitized_query = None, message = None,
                 response = Some (PStr resp)\<rparr>))"
  by (auto simp: check_input_safety_def check_output_safety_def)

theorem disabled_manager_passes_through_witness:
  "\<not> enabled disabled_manager
   \<and> check_input_safety disabled_manager ''t0'' ''ignore previous instructions'' =
        Inr (disabled_manager,
             \<lparr>safe = True, found = None, sanitized_query = None, message = None,
              response = None\<rparr>)
   \<and> check_output_safety disabled_manager ''t0'' ''Contact: jane@example.com'' =
        Inr (disabled_manager,
             \<lparr>safe = True, found = None, sanitized_query = None, message = None,
              response = Some (PStr ''Contact: jane@example.com'')\<rparr>)"
proof -
  have off: "\<not> enabled disabled_manager"
    by (simp add: disabled_manager_def default_manager_def)
  from disabled_manager_passes_through
         [of disabled_manager "''t0''" "''ignore previous instructions''"
             "''Contact: jane@example.com''"] off
  show ?thesis by blast
qed

section \<open>Content without violations\<close>

text \<open>
  C2, as the code has it: when the guardrail finds no violation, \<open>check_input_safety\<close>
  returns \<open>safe = True\<close> and, as \<open>sanitized_query\<close>, the guardrail's sanitized input
  (left out when that is empty or \<open>None\<close>); this is the query itself when no external
  guard is installed. \<open>check_output_safety\<close> returns \<open>safe = True\<close> and the response
  unchanged. Neither logs an event.
\<close>

theorem clean_content_is_safe:
  "(enabled m \<and> input_guardrail m = Some ig \<and> violations (input_validate ig query) = []
      \<longrightarrow> check_input_safety m now query =
            Inr (m, \<lparr>safe = True, found = Some [],
                     sanitized_query = (if truthy (sanitized (input_validate ig query))
                                        then Some (sanitized (input_validate ig query))
                                        else None),
                     message = None, response = None\<rparr>)
          \<and> (input_guard ig = None
               \<longrightarrow> check_input_safety m now query =
                     Inr (m, \<lparr>safe = True, found = Some [],
                              sanitized_query = Some (PStr query),
                              message = None, response = None\<rparr>)))
   \<and> (enabled m \<and> output_guardrail m = Some og \<and> violations (output_validate og resp) = []
      \<longrightarrow> check_output_safety m now resp =
            Inr (m, \<lparr>safe = True, found = Some [], sanitized_query = None, message = None,
                     response = Some (PStr resp)\<rparr>))"
proof (intro conjI impI)
  assume a: "enabled m \<and> input_guardrail m = Some ig \<and> violations (input_validate ig query) = []"
  then show general: "check_input_safety m now query =
            Inr (m, \<lparr>safe = True, found = Some [],
                     sanitized_query = (if truthy (sanitized (input_validate ig query))
                                        then Some (sanitized (input_validate ig query))
                                        else None),
                     message = None, response = None\<rparr>)"
    by (simp add: check_input_clean)
  assume "input_guard ig = None"
  then have s: "sanitized (input_validate ig query) = PStr query"
    by (rule input_sanitized_no_guard)
  from a have "5 \<le> length query"
    using input_no_violation_long [of ig query] by blast
  then have "query \<noteq> []" by auto
  with general s show "check_input_safety m now query =
                     Inr (m, \<lparr>safe = True, found = Some [],
                              sanitized_query = Some (PStr query),
                              message = None, response = None\<rparr>)"
    by simp
next
  assume "enabled m \<and> output_guardrail m = Some og \<and> violations (output_validate og resp) = []"
  then show "check_output_safety m now resp =
            Inr (m, \<lparr>safe = True, found = Some [], sanitized_query = None, message = None,
                     response = Some (PStr resp)\<rparr>)"
    by (simp add: check_output_clean)
qed

lemma example_clean_query:
  "violations (input_validate fallback_input_guardrail ''Is AI fair?'') = []"
  by code_simp

lemma example_clean_response:
  "violations (output_validate fallback_output_guardrail ''AI can be fair.'') = []"
  by code_simp

theorem clean_content_is_safe_witness:
  "enabled default_manager
   \<and> input_guardrail default_manager = Some fallback_input_guardrail
   \<and> violations (input_validate fallback_input_guardrail ''Is AI fair?'') = []
   \<and> input_guard fallback_input_guardrail = None
   \<and> check_input_safety default_manager ''t0'' ''Is AI fair?'' =
        Inr (default_manager,
             \<lparr>safe = True, found = Some [], sanitized_query = Some (PStr ''Is AI fair?''),
              message = None, response = None\<rparr>)
   \<and> output_guardrail default_manager = Some fallback_output_guardrail
   \<and> violations (output_validate fallback_output_guardrail ''AI can be fair.'') = []
   \<and> check_output_safety default_manager ''t0'' ''AI can be fair.'' =
        Inr (default_manager,
             \<lparr>safe = True, found = Some [], sanitized_query = None, message = None,
              response = Some (PStr ''AI can be fair.'')\<rparr>)"
  using clean_content_is_safe
          [of default_manager fallback_input_guardrail "''Is AI fair?''" "''t0''"
              fallback_output_guardrail "''AI can be fair.''"]
        default_manager_parts example_clean_query example_clean_response
  by blast

lemma example_rewritten_query:
  "violations (input_validate rewriting_input_guardrail ''Is AI fair?'') = []"
  "sanitized (input_validate rewriting_input_guardrail ''Is AI fair?'') = PStr ''is ai fair?''"
  by code_simp+

text \<open>
  C2 as stated fails for the input: an external guard may pass a query and hand back
  another text as its validated output, which the guardrail takes as the sanitized
  input; \<open>sanitized_query\<close> is then not the query.
\<close>

theorem rewritten_query_counterexample:
  "violations (input_validate rewriting_input_guardrail ''Is AI fair?'') = []
   \<and> check_input_safety rewriting_manager ''t0'' ''Is AI fair?'' =
        Inr (rewriting_manager,
             \<lparr>safe = True, found = Some [], sanitized_query = Some (PStr ''is ai fair?''),
              message = None, response = None\<rparr>)
   \<and> PStr ''is ai fair?'' \<noteq> PStr ''Is AI fair?''"
proof -
  have "enabled rewriting_manager"
    and "input_guardrail rewriting_manager = Some rewriting_input_guardrail"
    by (simp_all add: rewriting_manager_def default_manager_def)
  from check_input_clean [OF this example_rewritten_query(1), of "''t0''"]
       example_rewritten_query
  show ?thesis by simp
qed

section \<open>The action \<open>allow\<close>\<close>

text \<open>
  C3, as the code has it: when violations are present and the resolved action is
  \<open>allow\<close>, \<open>check_output_safety\<close> returns the response unchanged and
  \<open>check_input_safety\<close> returns the guardrail's sanitized input as \<open>sanitized_query\<close>
  (the query itself without an external guard) together with the strategy's message,
  but both results have \<open>safe = False\<close>, and the event is logged when logging is on:
  \<open>safe\<close> is the guardrail's \<open>valid\<close>, which is false as soon as there is a violation.
\<close>

theorem allow_passes_content_but_unsafe:
  "(enabled m \<and> input_guardrail m = Some ig \<and> violations (input_validate ig query) \<noteq> []
      \<and> action (apply_strategy m (violations (input_validate ig query)) query Input)
          = PStr ''allow''
      \<longrightarrow> check_input_safety m now query =
            Inr (if log_events m
                 then log_safety_event m now Input query
                        (violations (input_validate ig query)) False
                 else m,
                 \<lparr>safe = False, found = Some (violations (input_validate ig query)),
                  sanitized_query = (if truthy (sanitized (input_validate ig query))
                                     then Some (sanitized (input_validate ig query)) else None),
                  message =
                    (if truthy (strategy_message
                          (apply_strategy m (violations (input_validate ig query)) query Input))
                     then Some (strategy_message
                          (apply_strategy m (violations (input_validate ig query)) query Input))
                     else None),
                  response = None\<rparr>))
   \<and> (enabled m \<and> output_guardrail m = Some og \<and> violations (output_validate og resp) \<noteq> []
      \<and> action (apply_strategy m (violations (output_validate og resp)) resp Output)
          = PStr ''allow''
      \<longrightarrow> check_output_safety m now resp =
            Inr (if log_events m
                 then log_safety_event m now Output resp
                        (violations (output_validate og resp)) False
                 else m,
                 \<lparr>safe = False, found = Some (violations (output_validate og resp)),
                  sanitized_query = None, message = None, response = Some (PStr resp)\<rparr>))"
  using check_input_other_action [of m ig query now]
        check_output_other_action [of m og resp now]
  by simp

lemma example_short_query:
  "violations (input_validate fallback_input_guardrail ''hi'') = [short_query_violation]"
  "sanitized (input_validate fallback_input_guardrail ''hi'') = PStr ''hi''"
  "action (apply_strategy allow_manager [short_query_violation] ''hi'' Input) = PStr ''allow''"
  "strategy_message (apply_strategy allow_manager [short_query_violation] ''hi'' Input)
     = PStr input_refusal"
  by code_simp+

lemma example_mail_response:
  "violations (output_validate fallback_output_guardrail ''Mail a@b.co'')
     = [email_violation [''a@b.co'']]"
  "action (apply_strategy allow_manager [email_violation [''a@b.co'']] ''Mail a@b.co'' Output)
     = PStr ''allow''"
  by code_simp+

theorem allow_passes_content_but_unsafe_witness:
  "enabled allow_manager
   \<and> input_guardrail allow_manager = Some fallback_input_guardrail
   \<and> violations (input_validate fallback_input_guardrail ''hi'') = [short_query_violation]
   \<and> action (apply_strategy allow_manager [short_query_violation] ''hi'' Input) = PStr ''allow''
   \<and> check_input_safety allow_manager ''t0'' ''hi'' =
        Inr (log_safety_event allow_manager ''t0'' Input ''hi'' [short_query_violation] False,
             \<lparr>safe = False, found = Some [short_query_violation],
              sanitized_query = Some (PStr ''hi''), message = Some (PStr input_refusal),
              response = None\<rparr>)
   \<and> output_guardrail allow_manager = Some fallback_output_guardrail
   \<and> violations (output_validate fallback_output_guardrail ''Mail a@b.co'')
       = [email_violation [''a@b.co'']]
   \<and> action (apply_strategy allow_manager [email_violation [''a@b.co'']] ''Mail a@b.co'' Output)
       = PStr ''allow''
   \<and> check_output_safety allow_manager ''t0'' ''Mail a@b.co'' =
        Inr (log_safety_event allow_manager ''t0'' Output ''Mail a@b.co''
               [email_violation [''a@b.co'']] False,
             \<lparr>safe = False, found = Some [email_violation [''a@b.co'']],
              sanitized_query = None, message = None,
              response = Some (PStr ''Mail a@b.co'')\<rparr>)"
  using allow_passes_content_but_unsafe
          [of allow_manager fallback_input_guardrail "''hi''" "''t0''"
              fallback_output_guardrail "''Mail a@b.co''"]
        allow_manager_parts example_short_query example_mail_response
  by (simp add: input_refusal_def)

text \<open>
  C3 as stated fails: with the strategy of the too short query \<open>hi\<close> set to \<open>allow\<close>,
  the query is passed on as \<open>sanitized_query\<close>, but the result is marked unsafe.
\<close>

theorem allow_is_unsafe_counterexample:
  "violations (input_validate fallback_input_guardrail ''hi'') = [short_query_violation]
   \<and> action (apply_strategy allow_manager [short_query_violation] ''hi'' Input) = PStr ''allow''
   \<and> check_input_safety allow_manager ''t0'' ''hi'' =
        Inr (log_safety_event allow_manager ''t0'' Input ''hi'' [short_query_violation] False,
             \<lparr>safe = False, found = Some [short_query_violation],
              sanitized_query = Some (PStr ''hi''), message = Some (PStr input_refusal),
              response = None\<rparr>)"
  using check_input_other_action
          [of allow_manager fallback_input_guardrail "''hi''" "''t0''"]
        allow_manager_parts example_short_query
  by (simp add: input_refusal_def)

section \<open>The actions \<open>refuse\<close> and \<open>redirect\<close>\<close>

lemma example_redirect:
  "violations (output_validate fallback_output_guardrail ''Mail a@b.co'')
     = [email_violation [''a@b.co'']]"
  "action (apply_strategy redirect_manager [email_violation [''a@b.co'']] ''Mail a@b.co'' Output)
     = PStr ''redirect''"
  "strategy_message
     (apply_strategy redirect_manager [email_violation [''a@b.co'']] ''Mail a@b.co'' Output)
     = PStr ''Please ask about the topic.''"
  by code_simp+

text \<open>
  C7 at a response with an address and the strategy \<open>redirect\<close> for PII:
  \<open>check_output_safety\<close> marks the result unsafe, but returns the response itself
  and not the strategy's message: it has branches for \<open>refuse\<close> and \<open>sanitize\<close> only.
\<close>

theorem redirect_output_keeps_response:
  "violations (output_validate fallback_output_guardrail ''Mail a@b.co'')
     = [email_violation [''a@b.co'']]
   \<and> action (apply_strategy redirect_manager [email_violation [''a@b.co'']]
               ''Mail a@b.co'' Output) = PStr ''redirect''
   \<and> strategy_message
        (apply_strategy redirect_manager [email_violation [''a@b.co'']] ''Mail a@b.co'' Output)
      = PStr ''Please ask about the topic.''
   \<and> check_output_safety redirect_manager ''t0'' ''Mail a@b.co'' =
        Inr (log_safety_event redirect_manager ''t0'' Output ''Mail a@b.co''
               [email_violation [''a@b.co'']] False,
             \<lparr>safe = False, found = Some [email_violation [''a@b.co'']],
              sanitized_query = None, message = None,
              response = Some (PStr ''Mail a@b.co'')\<rparr>)"
  using check_output_other_action
          [of redirect_manager fallback_output_guardrail "''Mail a@b.co''" "''t0''"]
        redirect_manager_parts example_redirect
  by simp

section \<open>The fallback to refusal\<close>

text \<open>
  When the first violation has the validator of the most severe one, a sanitize
  strategy with \<open>fallback_to_refuse\<close> escalates to the strategy's message once less
  than half of the response is left.
\<close>

lemma fallback_escalates_when_first_is_highest:
  assumes "enabled m" "output_guardrail m = Some og"
    and "violations (output_validate og r) \<noteq> []"
    and "action (apply_strategy m (violations (output_validate og r)) r Output) = PStr ''sanitize''"
    and "2 * length (sanitize r (violations (output_validate og r))) < length r"
    and "validator (hd (violations (output_validate og r)))
         = validator (highest_severity_violation (violations (output_validate og r)))"
    and "truthy (dict_get
           (get_response_strategy m
              (case validator (highest_severity_violation (violations (output_validate og r))) of
                 Some v \<Rightarrow> v | None \<Rightarrow> []) Output)
           ''fallback_to_refuse'' (PBool False))"
  shows "check_output_safety m now r =
           Inr (if log_events m
                then log_safety_event m now Output r (violations (output_validate og r)) False
                else m,
                \<lparr>safe = False, found = Some (violations (output_validate og r)),
                 sanitized_query = None, message = None,
                 response = Some
                   (dict_get
                      (get_response_strategy m
                         (case validator
                                 (highest_severity_violation (violations (output_validate og r))) of
                            Some v \<Rightarrow> v | None \<Rightarrow> []) Output)
                      ''message'' (dict_get (on_violation m) ''message'' (PStr output_refusal)))\<rparr>)"
  using check_output_sanitize [OF assms(1-4), of now] assms(5-7)
  by (simp add: Let_def)

text \<open>
  So without an external guard the escalation happens whenever the strategy of the most
  severe violation asks for it.
\<close>

lemma fallback_escalates_without_guard:
  assumes "enabled m" "output_guardrail m = Some og" "output_guard og = None"
    and "violations (output_validate og r) \<noteq> []"
    and "action (apply_strategy m (violations (output_validate og r)) r Output) = PStr ''sanitize''"
    and "2 * length (sanitize r (violations (output_validate og r))) < length r"
    and "truthy (dict_get
           (get_response_strategy m
              (case validator (highest_severity_violation (violations (output_validate og r))) of
                 Some v \<Rightarrow> v | None \<Rightarrow> []) Output)
           ''fallback_to_refuse'' (PBool False))"
  shows "check_output_safety m now r =
           Inr (if log_events m
                then log_safety_event m now Output r (violations (output_validate og r)) False
                else m,
                \<lparr>safe = False, found = Some (violations (output_validate og r)),
                 sanitized_query = None, message = None,
                 response = Some
                   (dict_get
                      (get_response_strategy m
                         (case validator
                                 (highest_severity_violation (violations (output_validate og r))) of
                            Some v \<Rightarrow> v | None \<Rightarrow> []) Output)
                      ''message'' (dict_get (on_violation m) ''message'' (PStr output_refusal)))\<rparr>)"
  using fallback_escalates_when_first_is_highest [OF assms(1,2,4,5,6) _ assms(7), of now]
        first_is_highest_without_guard [OF assms(3,4)]
  by simp

lemma example_bias_and_address:
  "violations (output_validate bias_output_guardrail long_address_response)
     = [bias_violation, email_violation [long_address]]"
  "highest_severity_violation [bias_violation, email_violation [long_address]]
     = email_violation [long_address]"
  "action (apply_strategy fallback_manager [bias_violation, email_violation [long_address]]
             long_address_response Output) = PStr ''sanitize''"
  "dict_get (get_response_strategy fallback_manager ''detect_pii'' Output)
     ''fallback_to_refuse'' (PBool False) = PBool True"
  "dict_get (get_response_strategy fallback_manager ''detect_pii'' Output)
     ''message'' (PStr output_refusal) = PStr ''Response withheld.''"
  "dict_get (get_response_strategy fallback_manager ''biascheck'' Output)
     ''fallback_to_refuse'' (PBool False) = PBool False"
  "sanitize long_address_response [bias_violation, email_violation [long_address]]
     = ''Mail [REDACTED]''"
  "2 * length ''Mail [REDACTED]'' < length long_address_response"
  by code_simp+

text \<open>
  C4 at a response for which the external guard reports a bias error before the
  built-in check finds the address: the most severe violation is the PII one, its
  strategy is \<open>sanitize\<close> with \<open>fallback_to_refuse\<close>, less than half of the response
  is left, and still the sanitized text is returned, not the strategy's message: the
  code looks the fallback up for \<open>violations[0]\<close>, the bias violation.
\<close>

theorem fallback_reads_first_violation:
  "violations (output_validate bias_output_guardrail long_address_response)
     = [bias_violation, email_violation [long_address]]
   \<and> highest_severity_violation [bias_violation, email_violation [long_address]]
     = email_violation [long_address]
   \<and> action (apply_strategy fallback_manager [bias_violation, email_violation [long_address]]
               long_address_response Output) = PStr ''sanitize''
   \<and> dict_get (get_response_strategy fallback_manager ''detect_pii'' Output)
        ''fallback_to_refuse'' (PBool False) = PBool True
   \<and> dict_get (get_response_strategy fallback_manager ''detect_pii'' Output)
        ''message'' (PStr output_refusal) = PStr ''Response withheld.''
   \<and> sanitize long_address_response [bias_violation, email_violation [long_address]]
     = ''Mail [REDACTED]''
   \<and> 2 * length ''Mail [REDACTED]'' < length long_address_response
   \<and> check_output_safety fallback_manager ''t0'' long_address_response =
        Inr (log_safety_event fallback_manager ''t0'' Output long_address_response
               [bias_violation, email_violation [long_address]] False,
             \<lparr>safe = False, found = Some [bias_violation, email_violation [long_address]],
              sanitized_query = None, message = None,
              response = Some (PStr ''Mail [REDACTED]'')\<rparr>)"
proof -
  have v: "validator (hd [bias_violation, email_violation [long_address]]) = Some ''biascheck''"
    by (simp add: bias_violation_def mk_violation_def)
  from check_output_sanitize
         [of fallback_manager bias_output_guardrail long_address_response "''t0''"]
       fallback_manager_parts example_bias_and_address v
  show ?thesis by (simp add: Let_def)
qed

section \<open>Citations and PII\<close>














section \<open>The event log\<close>

lemma after_call_unsafe:
  assumes "\<forall>e \<in> set (safety_events m). \<not> event_safe e"
  shows "\<forall>e \<in> set (safety_events (after_call m c)). \<not> event_safe e"
proof (cases c)
  case (Check_input now q)
  show ?thesis
  proof (cases "check_input_safety m now q")
    case (Inl err)
    with Check_input assms show ?thesis by simp
  next
    case (Inr p)
    obtain m' res where p: "p = (m', res)" by (cases p)
    from check_input_log [of m now q m' res] Inr p assms Check_input
    show ?thesis by auto
  qed
next
  case (Check_output now r)
  show ?thesis
  proof (cases "check_output_safety m now r")
    case (Inl err)
    with Check_output assms show ?thesis by simp
  next
    case (Inr p)
    obtain m' res where p: "p = (m', res)" by (cases p)
    from check_output_log [of m now r m' res] Inr p assms Check_output
    show ?thesis by auto
  qed
next
  case Clear
  then show ?thesis by (simp add: clear_events_def)
qed

lemma after_calls_unsafe:
  "\<forall>e \<in> set (safety_events m). \<not> event_safe e
   \<Longrightarrow> \<forall>e \<in> set (safety_events (after_calls m calls)). \<not> event_safe e"
proof (induction calls arbitrary: m)
  case Nil
  then show ?case by (simp add: after_calls_def)
next
  case (Cons c calls)
  from after_call_unsafe [OF Cons.prems]
  have "\<forall>e \<in> set (safety_events (after_calls (after_call m c) calls)). \<not> event_safe e"
    by (rule Cons.IH)
  then show ?case by (simp add: after_calls_def)
qed

lemma stats_all_unsafe:
  assumes "\<forall>e \<in> set (safety_events m). \<not> event_safe e"
  shows "violation_count (get_safety_stats m) = total_events (get_safety_stats m)"
    and "0 < total_events (get_safety_stats m) \<Longrightarrow> violation_rate (get_safety_stats m) = 1"
proof -
  from assms have "filter (\<lambda>e. \<not> event_safe e) (safety_events m) = safety_events m"
    by (simp add: filter_id_conv)
  then show "violation_count (get_safety_stats m) = total_events (get_safety_stats m)"
    and "0 < total_events (get_safety_stats m) \<Longrightarrow> violation_rate (get_safety_stats m) = 1"
    by (simp_all add: get_safety_stats_def Let_def)
qed

text \<open>
  C10: starting from the empty log of a new manager, after any sequence of calls of
  \<open>check_input_safety\<close>, \<open>check_output_safety\<close> and \<open>clear_events\<close> every logged
  event has \<open>safe = False\<close>; so \<open>get_safety_stats\<close> reports as many violations as
  events, and a violation rate of 1 when there is an event.
\<close>

theorem logged_events_are_unsafe:
  assumes "safety_events m = []"
  shows "(\<forall>e \<in> set (safety_events (after_calls m calls)). \<not> event_safe e)
         \<and> violation_count (get_safety_stats (after_calls m calls))
             = total_events (get_safety_stats (after_calls m calls))
         \<and> (0 < total_events (get_safety_stats (after_calls m calls))
              \<longrightarrow> violation_rate (get_safety_stats (after_calls m calls)) = 1)"
proof -
  from assms have "\<forall>e \<in> set (safety_events m). \<not> event_safe e" by simp
  then have inv: "\<forall>e \<in> set (safety_events (after_calls m calls)). \<not> event_safe e"
    by (rule after_calls_unsafe)
  from inv stats_all_unsafe [OF inv] show ?thesis by blast
qed

lemma example_log_length:
  "total_events (get_safety_stats
     (after_calls default_manager
        [Check_input ''t0'' ''hi'', Check_output ''t1'' ''fine'',
         Check_output ''t2'' ''a@b.co''])) = 2"
  by code_simp

theorem logged_events_are_unsafe_witness:
  "safety_events default_manager = []
   \<and> total_events (get_safety_stats
        (after_calls default_manager
           [Check_input ''t0'' ''hi'', Check_output ''t1'' ''fine'',
            Check_output ''t2'' ''a@b.co''])) = 2
   \<and> violation_count (get_safety_stats
        (after_calls default_manager
           [Check_input ''t0'' ''hi'', Check_output ''t1'' ''fine'',
            Check_output ''t2'' ''a@b.co''])) = 2
   \<and> violation_rate (get_safety_stats
        (after_calls default_manager
           [Check_input ''t0'' ''hi'', Check_output ''t1'' ''fine'',
            Check_output ''t2'' ''a@b.co''])) = 1"
proof -
  have fresh: "safety_events default_manager = []"
    by (simp add: default_manager_def)
  from logged_events_are_unsafe
         [OF fresh, of "[Check_input ''t0'' ''hi'', Check_output ''t1'' ''fine'',
                         Check_output ''t2'' ''a@b.co'']"]
       example_log_length fresh
  show ?thesis by simp
qed

end
